theory Spec2Isabelle
  imports Main "HOL-Library.Word"
begin

section \<open>Data model\<close>

text \<open>
  The decoders of \<^verbatim>\<open>complete_mcc_reader.py\<close>, \<^verbatim>\<open>snowball_timeline.py\<close> and
  \<^verbatim>\<open>find_owner.py\<close> read from an \<^verbatim>\<open>io.BytesIO\<close> stream that only ever moves forward.
  The stream is modelled by the list of bytes that are still unread; the cursor position is
  the length of the consumed prefix.
\<close>

type_synonym byte = "8 word"
type_synonym bytes = "byte list"

text \<open>A Python \<^verbatim>\<open>str\<close> is a sequence of Unicode code points.\<close>

type_synonym pystr = "nat list"

text \<open>
  The exceptions the decoders can raise: \<^verbatim>\<open>struct.error\<close> (from \<^verbatim>\<open>struct.unpack\<close> on a buffer
  of the wrong size), the \<^verbatim>\<open>ValueError\<close> of \<^verbatim>\<open>read_tag\<close> (it carries the tag type of its
  message) and the interpreter's \<^verbatim>\<open>RecursionError\<close>.
\<close>

datatype error = StructError | ValueError nat | RecursionError

text \<open>
  The decoded tree is an untyped Python value: \<^verbatim>\<open>None\<close>, an \<^verbatim>\<open>int\<close>, a \<^verbatim>\<open>float\<close>, a \<^verbatim>\<open>str\<close>,
  a \<^verbatim>\<open>list\<close> or a \<^verbatim>\<open>dict\<close>. A float is kept as the width in bytes and the bit pattern it was
  unpacked from; no floating-point arithmetic is modelled, and bit patterns that
  \<^verbatim>\<open>struct.unpack\<close> maps to one Python float (NaN payloads) stay apart, so no statement
  below compares floats. A \<^verbatim>\<open>dict\<close> is the list of its items in insertion order, with
  distinct keys.
\<close>

datatype pyval =
    PNone
  | PInt int
  | PFloat nat nat
  | PStr pystr
  | PList "pyval list"
  | PDict "(pystr \<times> pyval) list"

type_synonym pydict = "(pystr \<times> pyval) list"

text \<open>A call either raises or returns a value together with the unread rest of the stream.\<close>

type_synonym 'a res = "error + ('a \<times> bytes)"

section \<open>The byte stream and the primitive reads\<close>

text \<open>
  \<^verbatim>\<open>BytesIO.read(n)\<close> returns at most \<^verbatim>\<open>n\<close> bytes, fewer when the stream ends first, and
  all the remaining bytes when \<^verbatim>\<open>n\<close> is negative. It never raises.
\<close>

definition stream_read :: "int \<Rightarrow> bytes \<Rightarrow> bytes \<times> bytes" where
  "stream_read n bs = (if n < 0 then (bs, []) else (take (nat n) bs, drop (nat n) bs))"

text \<open>Big-endian value of a byte string, and its reading as a two's complement number.\<close>

definition be_nat :: "bytes \<Rightarrow> nat" where
  "be_nat bs = foldl (\<lambda>a b. a * 256 + unat b) 0 bs"

definition to_signed :: "nat \<Rightarrow> nat \<Rightarrow> int" where
  "to_signed k n = (if 2 ^ (8 * k - 1) \<le> n then int n - 2 ^ (8 * k) else int n)"

text \<open>
  \<^verbatim>\<open>struct.unpack\<close> with a format of \<^verbatim>\<open>k\<close> bytes raises \<^verbatim>\<open>struct.error\<close> unless the buffer
  has exactly \<^verbatim>\<open>k\<close> bytes.
\<close>

definition unpack :: "nat \<Rightarrow> bytes \<Rightarrow> error + nat" where
  "unpack k buf = (if length buf = k then Inr (be_nat buf) else Inl StructError)"

text \<open>The idiom \<^verbatim>\<open>struct.unpack(fmt, self.stream.read(k))[0]\<close> shared by all primitive reads.\<close>

definition read_fixed :: "nat \<Rightarrow> bytes \<Rightarrow> nat res" where
  "read_fixed k bs = (case stream_read (int k) bs of (buf, rest) \<Rightarrow>
      (case unpack k buf of Inl e \<Rightarrow> Inl e | Inr n \<Rightarrow> Inr (n, rest)))"

text \<open>
  Every method takes as first argument a budget for the depth of nested method calls, which
  stands for what the interpreter's recursion limit leaves: a call with no budget raises
  \<^verbatim>\<open>RecursionError\<close>, otherwise the body runs and its own calls have one level less. The
  budget is an abstraction. It counts one level for each call of a method of the reader;
  how many levels the interpreter really takes for a call depends on its version (a call
  of a built-in such as \<^verbatim>\<open>struct.unpack\<close> or \<^verbatim>\<open>decode\<close>, and a list comprehension, can take
  levels of their own). The statements below therefore use the budget as fuel only: they
  speak of a budget at which a read has succeeded, or of every budget that is large
  enough, and never of the exact depth at which the interpreter gives up.
\<close>

fun read_byte :: "nat \<Rightarrow> bytes \<Rightarrow> int res" where
  "read_byte 0 bs = Inl RecursionError"
| "read_byte (Suc d) bs =
    (case read_fixed 1 bs of Inl e \<Rightarrow> Inl e | Inr (n, rest) \<Rightarrow> Inr (to_signed 1 n, rest))"

fun read_ubyte :: "nat \<Rightarrow> bytes \<Rightarrow> nat res" where
  "read_ubyte 0 bs = Inl RecursionError"
| "read_ubyte (Suc d) bs = read_fixed 1 bs"

fun read_short :: "nat \<Rightarrow> bytes \<Rightarrow> int res" where
  "read_short 0 bs = Inl RecursionError"
| "read_short (Suc d) bs =
    (case read_fixed 2 bs of Inl e \<Rightarrow> Inl e | Inr (n, rest) \<Rightarrow> Inr (to_signed 2 n, rest))"

fun read_int :: "nat \<Rightarrow> bytes \<Rightarrow> int res" where
  "read_int 0 bs = Inl RecursionError"
| "read_int (Suc d) bs =
    (case read_fixed 4 bs of Inl e \<Rightarrow> Inl e | Inr (n, rest) \<Rightarrow> Inr (to_signed 4 n, rest))"

fun read_long :: "nat \<Rightarrow> bytes \<Rightarrow> int res" where
  "read_long 0 bs = Inl RecursionError"
| "read_long (Suc d) bs =
    (case read_fixed 8 bs of Inl e \<Rightarrow> Inl e | Inr (n, rest) \<Rightarrow> Inr (to_signed 8 n, rest))"

fun read_float :: "nat \<Rightarrow> bytes \<Rightarrow> pyval res" where
  "read_float 0 bs = Inl RecursionError"
| "read_float (Suc d) bs =
    (case read_fixed 4 bs of Inl e \<Rightarrow> Inl e | Inr (n, rest) \<Rightarrow> Inr (PFloat 4 n, rest))"

fun read_double :: "nat \<Rightarrow> bytes \<Rightarrow> pyval res" where
  "read_double 0 bs = Inl RecursionError"
| "read_double (Suc d) bs =
    (case read_fixed 8 bs of Inl e \<Rightarrow> Inl e | Inr (n, rest) \<Rightarrow> Inr (PFloat 8 n, rest))"

subsection \<open>Lossy UTF-8 decoding\<close>

text \<open>
  \<^verbatim>\<open>bytes.decode('utf-8', errors='replace')\<close> is the interpreter's codec, not code of the
  readers. It is modelled as CPython implements it: a well-formed sequence gives its code
  point; an invalid start byte, or the longest prefix of a sequence that is cut short by an
  invalid byte or by the end of the input, gives one U+FFFD, and decoding resumes at the
  offending byte. The function is total: this decoding never raises.
\<close>

definition is_cont :: "nat \<Rightarrow> bool" where
  "is_cont c = (0x80 \<le> c \<and> c < 0xC0)"

fun utf8_replace :: "nat list \<Rightarrow> nat list" where
  "utf8_replace [] = []"
| "utf8_replace (b # bs) =
   (if b < 0x80 then b # utf8_replace bs
    else if b < 0xC2 then 0xFFFD # utf8_replace bs
    else if b < 0xE0 then
      (case bs of [] \<Rightarrow> [0xFFFD]
       | c1 # r1 \<Rightarrow>
          if is_cont c1 then ((b - 0xC0) * 64 + (c1 - 0x80)) # utf8_replace r1
          else 0xFFFD # utf8_replace bs)
    else if b < 0xF0 then
      (case bs of [] \<Rightarrow> [0xFFFD]
       | c1 # r1 \<Rightarrow>
          if \<not> is_cont c1 \<or> (b = 0xE0 \<and> c1 < 0xA0) \<or> (b = 0xED \<and> 0xA0 \<le> c1)
          then 0xFFFD # utf8_replace bs
          else (case r1 of [] \<Rightarrow> [0xFFFD]
            | c2 # r2 \<Rightarrow>
               if is_cont c2
               then (((b - 0xE0) * 64 + (c1 - 0x80)) * 64 + (c2 - 0x80)) # utf8_replace r2
               else 0xFFFD # utf8_replace r1))
    else if b < 0xF5 then
      (case bs of [] \<Rightarrow> [0xFFFD]
       | c1 # r1 \<Rightarrow>
          if \<not> is_cont c1 \<or> (b = 0xF0 \<and> c1 < 0x90) \<or> (b = 0xF4 \<and> 0x90 \<le> c1)
          then 0xFFFD # utf8_replace bs
          else (case r1 of [] \<Rightarrow> [0xFFFD]
            | c2 # r2 \<Rightarrow>
               if \<not> is_cont c2 then 0xFFFD # utf8_replace r1
               else (case r2 of [] \<Rightarrow> [0xFFFD]
                 | c3 # r3 \<Rightarrow>
                    if is_cont c3
                    then ((((b - 0xF0) * 64 + (c1 - 0x80)) * 64 + (c2 - 0x80)) * 64
                           + (c3 - 0x80)) # utf8_replace r3
                    else 0xFFFD # utf8_replace r2)))
    else 0xFFFD # utf8_replace bs)"

definition decode_utf8 :: "bytes \<Rightarrow> pystr" where
  "decode_utf8 buf = utf8_replace (map unat buf)"

text \<open>
  \<^verbatim>\<open>read_string\<close>: the length is unpacked from two bytes (format \<^verbatim>\<open>>H\<close>); the payload is
  whatever \<^verbatim>\<open>read(length)\<close> returns, with no check that it has \<^verbatim>\<open>length\<close> bytes.
\<close>

fun read_string :: "nat \<Rightarrow> bytes \<Rightarrow> pystr res" where
  "read_string 0 bs = Inl RecursionError"
| "read_string (Suc d) bs =
    (case read_fixed 2 bs of Inl e \<Rightarrow> Inl e
     | Inr (len, rest) \<Rightarrow>
        (case stream_read (int len) rest of (buf, rest') \<Rightarrow> Inr (decode_utf8 buf, rest')))"

section \<open>The tag reader of \<^verbatim>\<open>NBTReader\<close>\<close>

text \<open>
  \<^verbatim>\<open>result[name] = value\<close> on a Python \<^verbatim>\<open>dict\<close>: a new key is appended, an existing key keeps
  its position and gets the new value.
\<close>

fun dict_set :: "pydict \<Rightarrow> pystr \<Rightarrow> pyval \<Rightarrow> pydict" where
  "dict_set [] k v = [(k, v)]"
| "dict_set ((k', v') # kvs) k v =
    (if k' = k then (k', v) # kvs else (k', v') # dict_set kvs k v)"

text \<open>
  The comprehension \<^verbatim>\<open>[f() for _ in range(n)]\<close>: the calls run in order and the first
  exception ends the comprehension. \<^verbatim>\<open>range(length)\<close> is empty for a negative \<^verbatim>\<open>length\<close>,
  hence the conversion \<^term>\<open>nat len\<close> at the call sites.
\<close>

fun read_n :: "(bytes \<Rightarrow> 'a res) \<Rightarrow> nat \<Rightarrow> bytes \<Rightarrow> ('a list) res" where
  "read_n f 0 bs = Inr ([], bs)"
| "read_n f (Suc n) bs =
    (case f bs of Inl e \<Rightarrow> Inl e
     | Inr (x, bs1) \<Rightarrow>
        (case read_n f n bs1 of Inl e \<Rightarrow> Inl e | Inr (xs, bs2) \<Rightarrow> Inr (x # xs, bs2)))"

definition int_array :: "(bytes \<Rightarrow> int res) \<Rightarrow> int \<Rightarrow> bytes \<Rightarrow> pyval res" where
  "int_array f len bs =
    (case read_n f (nat len) bs of Inl e \<Rightarrow> Inl e
     | Inr (xs, rest) \<Rightarrow> Inr (PList (map PInt xs), rest))"

text \<open>
  \<^verbatim>\<open>read_tag\<close>, \<^verbatim>\<open>read_list\<close> and \<^verbatim>\<open>read_compound\<close> of class \<^verbatim>\<open>NBTReader\<close>. The class is
  defined twice, in \<^verbatim>\<open>complete_mcc_reader.py\<close> and in \<^verbatim>\<open>snowball_timeline.py\<close>; the two
  texts are the same statement for statement, except that the \<^verbatim>\<open>if\<close> chain of \<^verbatim>\<open>read_tag\<close>
  ends with \<^verbatim>\<open>else: raise ValueError(...)\<close> in the first file and has no \<^verbatim>\<open>else\<close> in the
  second, where the method then returns \<^verbatim>\<open>None\<close>. The flag \<open>strict\<close> selects the variant:
  \<open>True\<close> for \<^verbatim>\<open>complete_mcc_reader.py\<close>, \<open>False\<close> for \<^verbatim>\<open>snowball_timeline.py\<close>.

  \<open>read_elems\<close> is the comprehension of \<^verbatim>\<open>read_list\<close> and \<open>compound_loop\<close> the
  \<^verbatim>\<open>while True\<close> loop of \<^verbatim>\<open>read_compound\<close>; both are counted with their method.
\<close>

function (sequential)
    read_tag :: "bool \<Rightarrow> nat \<Rightarrow> nat \<Rightarrow> bytes \<Rightarrow> pyval res"
and read_list :: "bool \<Rightarrow> nat \<Rightarrow> bytes \<Rightarrow> pyval res"
and read_elems :: "bool \<Rightarrow> nat \<Rightarrow> nat \<Rightarrow> nat \<Rightarrow> bytes \<Rightarrow> (pyval list) res"
and read_compound :: "bool \<Rightarrow> nat \<Rightarrow> bytes \<Rightarrow> pyval res"
and compound_loop :: "bool \<Rightarrow> nat \<Rightarrow> pydict \<Rightarrow> bytes \<Rightarrow> pyval res"
where
  "read_tag strict 0 tag_type bs = Inl RecursionError"
| "read_tag strict (Suc d) tag_type bs =
    (if tag_type = 0 then Inr (PNone, bs)
     else if tag_type = 1 then
       (case read_byte d bs of Inl e \<Rightarrow> Inl e | Inr (n, rest) \<Rightarrow> Inr (PInt n, rest))
     else if tag_type = 2 then
       (case read_short d bs of Inl e \<Rightarrow> Inl e | Inr (n, rest) \<Rightarrow> Inr (PInt n, rest))
     else if tag_type = 3 then
       (case read_int d bs of Inl e \<Rightarrow> Inl e | Inr (n, rest) \<Rightarrow> Inr (PInt n, rest))
     else if tag_type = 4 then
       (case read_long d bs of Inl e \<Rightarrow> Inl e | Inr (n, rest) \<Rightarrow> Inr (PInt n, rest))
     else if tag_type = 5 then read_float d bs
     else if tag_type = 6 then read_double d bs
     else if tag_type = 7 then
       (case read_int d bs of Inl e \<Rightarrow> Inl e
        | Inr (len, rest) \<Rightarrow> int_array (read_byte d) len rest)
     else if tag_type = 8 then
       (case read_string d bs of Inl e \<Rightarrow> Inl e | Inr (s, rest) \<Rightarrow> Inr (PStr s, rest))
     else if tag_type = 9 then read_list strict d bs
     else if tag_type = 10 then read_compound strict d bs
     else if tag_type = 11 then
       (case read_int d bs of Inl e \<Rightarrow> Inl e
        | Inr (len, rest) \<Rightarrow> int_array (read_int d) len rest)
     else if tag_type = 12 then
       (case read_int d bs of Inl e \<Rightarrow> Inl e
        | Inr (len, rest) \<Rightarrow> int_array (read_long d) len rest)
     else if strict then Inl (ValueError tag_type)
     else Inr (PNone, bs))"
| "read_list strict 0 bs = Inl RecursionError"
| "read_list strict (Suc d) bs =
    (case read_ubyte d bs of Inl e \<Rightarrow> Inl e
     | Inr (tag_type, bs1) \<Rightarrow>
        (case read_int d bs1 of Inl e \<Rightarrow> Inl e
         | Inr (len, bs2) \<Rightarrow>
            (case read_elems strict d tag_type (nat len) bs2 of Inl e \<Rightarrow> Inl e
             | Inr (vs, bs3) \<Rightarrow> Inr (PList vs, bs3))))"
| "read_elems strict d tag_type 0 bs = Inr ([], bs)"
| "read_elems strict d tag_type (Suc n) bs =
    (case read_tag strict d tag_type bs of Inl e \<Rightarrow> Inl e
     | Inr (v, bs1) \<Rightarrow>
        (case read_elems strict d tag_type n bs1 of Inl e \<Rightarrow> Inl e
         | Inr (vs, bs2) \<Rightarrow> Inr (v # vs, bs2)))"
| "read_compound strict 0 bs = Inl RecursionError"
| "read_compound strict (Suc d) bs = compound_loop strict d [] bs"
| "compound_loop strict d result bs =
    (case read_ubyte d bs of Inl e \<Rightarrow> Inl e
     | Inr (tag_type, bs1) \<Rightarrow>
        if tag_type = 0 then Inr (PDict result, bs1)
        else (case read_string d bs1 of Inl e \<Rightarrow> Inl e
          | Inr (name, bs2) \<Rightarrow>
             (case read_tag strict d tag_type bs2 of Inl e \<Rightarrow> Inl e
              | Inr (v, bs3) \<Rightarrow> compound_loop strict d (dict_set result name v) bs3)))"
  by pat_completeness auto

text \<open>
  Termination: a call into another method has one level less; the comprehension counts
  down; the loop of \<^verbatim>\<open>read_compound\<close> continues on a strictly shorter stream, because no
  read ever gives bytes back.
\<close>

lemma stream_read_length: "stream_read n bs = (buf, rest) \<Longrightarrow> length rest \<le> length bs"
  by (auto simp: stream_read_def split: if_splits)

lemma read_fixed_length:
  "read_fixed k bs = Inr (n, rest) \<Longrightarrow> length rest + k = length bs"
  by (auto simp: read_fixed_def stream_read_def unpack_def split: if_splits)

lemma read_ubyte_length: "read_ubyte d bs = Inr (n, rest) \<Longrightarrow> length rest + 1 = length bs"
  by (cases d) (auto dest: read_fixed_length)

lemma read_byte_length: "read_byte d bs = Inr (n, rest) \<Longrightarrow> length rest + 1 = length bs"
  by (cases d) (auto dest: read_fixed_length split: sum.splits)

lemma read_short_length: "read_short d bs = Inr (n, rest) \<Longrightarrow> length rest + 2 = length bs"
  by (cases d) (auto dest: read_fixed_length split: sum.splits)

lemma read_int_length: "read_int d bs = Inr (n, rest) \<Longrightarrow> length rest + 4 = length bs"
  by (cases d) (auto dest: read_fixed_length split: sum.splits)

lemma read_long_length: "read_long d bs = Inr (n, rest) \<Longrightarrow> length rest + 8 = length bs"
  by (cases d) (auto dest: read_fixed_length split: sum.splits)

lemma read_float_length: "read_float d bs = Inr (v, rest) \<Longrightarrow> length rest + 4 = length bs"
  by (cases d) (auto dest: read_fixed_length split: sum.splits)

lemma read_double_length: "read_double d bs = Inr (v, rest) \<Longrightarrow> length rest + 8 = length bs"
  by (cases d) (auto dest: read_fixed_length split: sum.splits)

lemma read_string_length: "read_string d bs = Inr (s, rest) \<Longrightarrow> length rest + 2 \<le> length bs"
  by (cases d) (auto dest!: read_fixed_length stream_read_length split: sum.splits prod.splits)

lemma read_n_length:
  "(\<And>b x r. f b = Inr (x, r) \<Longrightarrow> length r \<le> length b) \<Longrightarrow>
   read_n f n bs = Inr (xs, rest) \<Longrightarrow> length rest \<le> length bs"
proof (induction n arbitrary: bs xs)
  case 0
  then show ?case by simp
next
  case (Suc n)
  then show ?case
    by (fastforce split: sum.splits prod.splits)
qed

lemma int_array_length:
  assumes "\<And>b x r. f b = Inr (x, r) \<Longrightarrow> length r \<le> length b"
    and "int_array f len bs = Inr (v, rest)"
  shows "length rest \<le> length bs"
proof -
  from assms(2) obtain xs where "read_n f (nat len) bs = Inr (xs, rest)"
    by (auto simp: int_array_def split: sum.splits prod.splits)
  with assms(1) show ?thesis by (rule read_n_length)
qed

lemmas prim_length = read_ubyte_length read_byte_length read_short_length read_int_length
  read_long_length read_float_length read_double_length read_string_length

lemma int_array_byte_length:
  "int_array (read_byte d) len bs = Inr (v, rest) \<Longrightarrow> length rest \<le> length bs"
  by (erule int_array_length[rotated]) (auto dest: prim_length)

lemma int_array_int_length:
  "int_array (read_int d) len bs = Inr (v, rest) \<Longrightarrow> length rest \<le> length bs"
  by (erule int_array_length[rotated]) (auto dest: prim_length)

lemma int_array_long_length:
  "int_array (read_long d) len bs = Inr (v, rest) \<Longrightarrow> length rest \<le> length bs"
  by (erule int_array_length[rotated]) (auto dest: prim_length)

lemmas array_length = int_array_byte_length int_array_int_length int_array_long_length

lemma read_partial_length:
  "read_tag_read_list_read_elems_read_compound_compound_loop_dom (Inl (Inl (strict, d, t, bs)))
     \<Longrightarrow> read_tag strict d t bs = Inr (v, rest) \<Longrightarrow> length rest \<le> length bs"
  "read_tag_read_list_read_elems_read_compound_compound_loop_dom (Inl (Inr (strict1, d1, bs1)))
     \<Longrightarrow> read_list strict1 d1 bs1 = Inr (v1, rest1) \<Longrightarrow> length rest1 \<le> length bs1"
  "read_tag_read_list_read_elems_read_compound_compound_loop_dom (Inr (Inl (strict2, d2, t2, n2, bs2)))
     \<Longrightarrow> read_elems strict2 d2 t2 n2 bs2 = Inr (v2, rest2) \<Longrightarrow> length rest2 \<le> length bs2"
  "read_tag_read_list_read_elems_read_compound_compound_loop_dom (Inr (Inr (Inl (strict3, d3, bs3))))
     \<Longrightarrow> read_compound strict3 d3 bs3 = Inr (v3, rest3) \<Longrightarrow> length rest3 \<le> length bs3"
  "read_tag_read_list_read_elems_read_compound_compound_loop_dom (Inr (Inr (Inr (strict4, d4, acc4, bs4))))
     \<Longrightarrow> compound_loop strict4 d4 acc4 bs4 = Inr (v4, rest4) \<Longrightarrow> length rest4 \<le> length bs4"
proof (induct strict d t bs and strict1 d1 bs1 and strict2 d2 t2 n2 bs2 and strict3 d3 bs3
     and strict4 d4 acc4 bs4
     arbitrary: v rest and v1 rest1 and v2 rest2 and v3 rest3 and v4 rest4
     rule: read_tag_read_list_read_elems_read_compound_compound_loop.pinduct)
  case (1 strict t bs)
  then show ?case by (simp add: read_tag.psimps)
next
  case (2 strict d t bs)
  note eq = 2(4)[unfolded read_tag.psimps(2)[OF 2(1)]]
  note IHlist = 2(2) and IHcomp = 2(3)
  consider "t = 9" | "t = 10" | "t \<noteq> 9" "t \<noteq> 10" by blast
  then show ?case
  proof cases
    case 1
    with eq IHlist show ?thesis by simp
  next
    case 2
    with eq IHcomp show ?thesis by simp
  next
    case 3
    with eq show ?thesis
      by (simp split: if_splits sum.splits prod.splits)
         (auto dest!: read_int_length array_length dest: prim_length)
  qed
next
  case (3 strict bs)
  then show ?case by (simp add: read_list.psimps)
next
  case (4 strict d bs)
  note eq = 4(3)[unfolded read_list.psimps(2)[OF 4(1)]]
  from eq obtain tt b1 where a: "read_ubyte d bs = Inr (tt, b1)"
    by (auto split: sum.splits prod.splits)
  with eq obtain len b2 where b: "read_int d b1 = Inr (len, b2)"
    by (auto split: sum.splits prod.splits)
  with eq a obtain vs where c: "read_elems strict d tt (nat len) b2 = Inr (vs, rest1)"
    by (auto split: sum.splits prod.splits)
  from 4(2)[OF a refl b refl c] have "length rest1 \<le> length b2" .
  with read_ubyte_length[OF a] read_int_length[OF b] show ?case by simp
next
  case (5 strict d t bs)
  then show ?case by (simp add: read_elems.psimps)
next
  case (6 strict d t n bs)
  note eq = 6(4)[unfolded read_elems.psimps(2)[OF 6(1)]]
  from eq obtain x b1 where a: "read_tag strict d t bs = Inr (x, b1)"
    by (auto split: sum.splits prod.splits)
  with eq obtain xs where b: "read_elems strict d t n b1 = Inr (xs, rest2)"
    by (auto split: sum.splits prod.splits)
  from 6(2)[OF a] 6(3)[OF a refl b] show ?case by simp
next
  case (7 strict bs)
  then show ?case by (simp add: read_compound.psimps)
next
  case (8 strict d bs)
  then show ?case by (simp add: read_compound.psimps)
next
  case (9 strict d result bs)
  note eq = 9(4)[unfolded compound_loop.psimps[OF 9(1)]]
  from eq obtain tt b1 where a: "read_ubyte d bs = Inr (tt, b1)"
    by (auto split: sum.splits prod.splits)
  show ?case
  proof (cases "tt = 0")
    case True
    with eq a read_ubyte_length[OF a] show ?thesis by simp
  next
    case False
    with eq a obtain name b2 where b: "read_string d b1 = Inr (name, b2)"
      by (auto split: sum.splits prod.splits)
    with eq a False obtain x b3 where c: "read_tag strict d tt b2 = Inr (x, b3)"
      by (auto split: sum.splits prod.splits)
    with eq a b False
    have e: "compound_loop strict d (dict_set result name x) b3 = Inr (v4, rest4)"
      by simp
    from 9(2)[OF a refl False b refl c] 9(3)[OF a refl False b refl c refl e]
      read_ubyte_length[OF a] read_string_length[OF b]
    show ?thesis by simp
  qed
qed

termination read_tag
  apply (relation "inv_image (less_than <*lex*> less_than <*lex*> less_than)
    (\<lambda>x. case x of
       Inl (Inl (s, d, t, bs)) \<Rightarrow> (d, 0::nat, 0::nat)
     | Inl (Inr (s, d, bs)) \<Rightarrow> (d, 0, 0)
     | Inr (Inl (s, d, t, n, bs)) \<Rightarrow> (d, 1, n)
     | Inr (Inr (Inl (s, d, bs))) \<Rightarrow> (d, 0, 0)
     | Inr (Inr (Inr (s, d, acc, bs))) \<Rightarrow> (d, 1, length bs))")
            apply (intro wf_inv_image wf_lex_prod wf_less_than)
           apply simp_all
  apply clarsimp
  apply (drule (1) read_partial_length(1))
  apply (drule read_ubyte_length)
  apply (drule read_string_length)
  apply simp
  done

text \<open>
  \<^verbatim>\<open>read_root\<close>, the same in both files: an \<^verbatim>\<open>End\<close> type byte gives \<^verbatim>\<open>None\<close>; otherwise the
  result is the one-item \<^verbatim>\<open>dict\<close> \<^verbatim>\<open>{name: data}\<close>.
\<close>

fun read_root :: "bool \<Rightarrow> nat \<Rightarrow> bytes \<Rightarrow> pyval res" where
  "read_root strict 0 bs = Inl RecursionError"
| "read_root strict (Suc d) bs =
    (case read_ubyte d bs of Inl e \<Rightarrow> Inl e
     | Inr (tag_type, bs1) \<Rightarrow>
        if tag_type = 0 then Inr (PNone, bs1)
        else (case read_string d bs1 of Inl e \<Rightarrow> Inl e
          | Inr (name, bs2) \<Rightarrow>
             (case read_tag strict d tag_type bs2 of Inl e \<Rightarrow> Inl e
              | Inr (data, bs3) \<Rightarrow> Inr (PDict [(name, data)], bs3))))"

section \<open>The skipping reader of \<^verbatim>\<open>find_owner.py\<close>\<close>

text \<open>
  Class \<^verbatim>\<open>DetailedNBTReader\<close> has the methods \<^verbatim>\<open>read_ubyte\<close>, \<^verbatim>\<open>read_int\<close>, \<^verbatim>\<open>read_long\<close> and
  \<^verbatim>\<open>read_string\<close> with the same text as \<^verbatim>\<open>NBTReader\<close>; the definitions above stand for
  them. \<^verbatim>\<open>skip_tag\<close> passes over a payload with bare \<^verbatim>\<open>self.stream.read(n)\<close> calls, which
  do not raise and are not counted, and has no final \<^verbatim>\<open>else\<close>. \<open>skip_elems\<close> is the \<^verbatim>\<open>for\<close>
  loop of the List branch, \<open>skip_compound_loop\<close> the \<^verbatim>\<open>while True\<close> loop of
  \<^verbatim>\<open>skip_compound\<close>.
\<close>

function (sequential)
    skip_tag :: "nat \<Rightarrow> nat \<Rightarrow> bytes \<Rightarrow> error + bytes"
and skip_elems :: "nat \<Rightarrow> nat \<Rightarrow> nat \<Rightarrow> bytes \<Rightarrow> error + bytes"
and skip_compound :: "nat \<Rightarrow> bytes \<Rightarrow> error + bytes"
and skip_compound_loop :: "nat \<Rightarrow> bytes \<Rightarrow> error + bytes"
where
  "skip_tag 0 tag_type bs = Inl RecursionError"
| "skip_tag (Suc d) tag_type bs =
    (if tag_type = 0 then Inr bs
     else if tag_type = 1 then Inr (snd (stream_read 1 bs))
     else if tag_type = 2 then Inr (snd (stream_read 2 bs))
     else if tag_type = 3 then Inr (snd (stream_read 4 bs))
     else if tag_type = 4 then Inr (snd (stream_read 8 bs))
     else if tag_type = 5 then Inr (snd (stream_read 4 bs))
     else if tag_type = 6 then Inr (snd (stream_read 8 bs))
     else if tag_type = 7 then
       (case read_int d bs of Inl e \<Rightarrow> Inl e
        | Inr (len, rest) \<Rightarrow> Inr (snd (stream_read len rest)))
     else if tag_type = 8 then
       (case read_string d bs of Inl e \<Rightarrow> Inl e | Inr (s, rest) \<Rightarrow> Inr rest)
     else if tag_type = 9 then
       (case read_ubyte d bs of Inl e \<Rightarrow> Inl e
        | Inr (list_type, bs1) \<Rightarrow>
           (case read_int d bs1 of Inl e \<Rightarrow> Inl e
            | Inr (len, bs2) \<Rightarrow> skip_elems d list_type (nat len) bs2))
     else if tag_type = 10 then skip_compound d bs
     else if tag_type = 11 then
       (case read_int d bs of Inl e \<Rightarrow> Inl e
        | Inr (len, rest) \<Rightarrow> Inr (snd (stream_read (len * 4) rest)))
     else if tag_type = 12 then
       (case read_int d bs of Inl e \<Rightarrow> Inl e
        | Inr (len, rest) \<Rightarrow> Inr (snd (stream_read (len * 8) rest)))
     else Inr bs)"
| "skip_elems d list_type 0 bs = Inr bs"
| "skip_elems d list_type (Suc n) bs =
    (case skip_tag d list_type bs of Inl e \<Rightarrow> Inl e
     | Inr bs1 \<Rightarrow> skip_elems d list_type n bs1)"
| "skip_compound 0 bs = Inl RecursionError"
| "skip_compound (Suc d) bs = skip_compound_loop d bs"
| "skip_compound_loop d bs =
    (case read_ubyte d bs of Inl e \<Rightarrow> Inl e
     | Inr (tag_type, bs1) \<Rightarrow>
        if tag_type = 0 then Inr bs1
        else (case read_string d bs1 of Inl e \<Rightarrow> Inl e
          | Inr (name, bs2) \<Rightarrow>
             (case skip_tag d tag_type bs2 of Inl e \<Rightarrow> Inl e
              | Inr bs3 \<Rightarrow> skip_compound_loop d bs3)))"
  by pat_completeness auto

lemma stream_read_snd_length: "length (snd (stream_read n bs)) \<le> length bs"
  by (simp add: stream_read_def)

lemma skip_partial_length:
  "skip_tag_skip_elems_skip_compound_skip_compound_loop_dom (Inl (Inl (d, t, bs)))
     \<Longrightarrow> skip_tag d t bs = Inr rest \<Longrightarrow> length rest \<le> length bs"
  "skip_tag_skip_elems_skip_compound_skip_compound_loop_dom (Inl (Inr (d1, t1, n1, bs1)))
     \<Longrightarrow> skip_elems d1 t1 n1 bs1 = Inr rest1 \<Longrightarrow> length rest1 \<le> length bs1"
  "skip_tag_skip_elems_skip_compound_skip_compound_loop_dom (Inr (Inl (d2, bs2)))
     \<Longrightarrow> skip_compound d2 bs2 = Inr rest2 \<Longrightarrow> length rest2 \<le> length bs2"
  "skip_tag_skip_elems_skip_compound_skip_compound_loop_dom (Inr (Inr (d3, bs3)))
     \<Longrightarrow> skip_compound_loop d3 bs3 = Inr rest3 \<Longrightarrow> length rest3 \<le> length bs3"
proof (induct d t bs and d1 t1 n1 bs1 and d2 bs2 and d3 bs3
     arbitrary: rest and rest1 and rest2 and rest3
     rule: skip_tag_skip_elems_skip_compound_skip_compound_loop.pinduct)
  case (1 t bs)
  then show ?case by (simp add: skip_tag.psimps)
next
  case (2 d t bs)
  note eq = 2(4)[unfolded skip_tag.psimps(2)[OF 2(1)]]
  note IHlist = 2(2) and IHcomp = 2(3)
  consider "t = 9" | "t = 10" | "t \<noteq> 9" "t \<noteq> 10" by blast
  then show ?case
  proof cases
    case 1
    with eq obtain lt b1 where a: "read_ubyte d bs = Inr (lt, b1)"
      by (auto split: sum.splits prod.splits)
    with eq 1 obtain len b2 where b: "read_int d b1 = Inr (len, b2)"
      by (auto split: sum.splits prod.splits)
    with eq 1 a have c: "skip_elems d lt (nat len) b2 = Inr rest" by simp
    from 1 have t: "t \<noteq> 0" "t \<noteq> 1" "t \<noteq> 2" "t \<noteq> 3" "t \<noteq> 4" "t \<noteq> 5" "t \<noteq> 6" "t \<noteq> 7"
      "t \<noteq> 8" "t = 9" by simp_all
    from IHlist[OF t a refl b refl c] read_ubyte_length[OF a] read_int_length[OF b]
    show ?thesis by simp
  next
    case 2
    with eq IHcomp show ?thesis by simp
  next
    case 3
    have le: "\<And>n b. length (snd (stream_read n b)) \<le> length b"
      by (rule stream_read_snd_length)
    from 3 eq show ?thesis
      apply (simp split: if_splits sum.splits prod.splits)
      using le[of _ bs] apply (auto dest!: read_int_length read_string_length
          intro: order_trans[OF le])
      done
  qed
next
  case (3 d t bs)
  then show ?case by (simp add: skip_elems.psimps)
next
  case (4 d t n bs)
  note eq = 4(4)[unfolded skip_elems.psimps(2)[OF 4(1)]]
  from eq obtain b1 where a: "skip_tag d t bs = Inr b1"
    by (auto split: sum.splits)
  with eq have b: "skip_elems d t n b1 = Inr rest1" by simp
  from 4(2)[OF a] 4(3)[OF a b] show ?case by simp
next
  case (5 bs)
  then show ?case by (simp add: skip_compound.psimps)
next
  case (6 d bs)
  then show ?case by (simp add: skip_compound.psimps)
next
  case (7 d bs)
  note eq = 7(4)[unfolded skip_compound_loop.psimps[OF 7(1)]]
  from eq obtain tt b1 where a: "read_ubyte d bs = Inr (tt, b1)"
    by (auto split: sum.splits prod.splits)
  show ?case
  proof (cases "tt = 0")
    case True
    with eq a read_ubyte_length[OF a] show ?thesis by simp
  next
    case False
    with eq a obtain name b2 where b: "read_string d b1 = Inr (name, b2)"
      by (auto split: sum.splits prod.splits)
    with eq a False obtain b3 where c: "skip_tag d tt b2 = Inr b3"
      by (auto split: sum.splits prod.splits)
    with eq a b False have e: "skip_compound_loop d b3 = Inr rest3"
      by simp
    from 7(2)[OF a refl False b refl c] 7(3)[OF a refl False b refl c e]
      read_ubyte_length[OF a] read_string_length[OF b]
    show ?thesis by simp
  qed
qed

termination skip_tag
  apply (relation "inv_image (less_than <*lex*> less_than <*lex*> less_than)
    (\<lambda>x. case x of
       Inl (Inl (d, t, bs)) \<Rightarrow> (d, 0::nat, 0::nat)
     | Inl (Inr (d, t, n, bs)) \<Rightarrow> (d, 1, n)
     | Inr (Inl (d, bs)) \<Rightarrow> (d, 0, 0)
     | Inr (Inr (d, bs)) \<Rightarrow> (d, 1, length bs))")
         apply (intro wf_inv_image wf_lex_prod wf_less_than)
        apply simp_all
  apply clarsimp
  apply (drule (1) skip_partial_length(1))
  apply (drule read_ubyte_length)
  apply (drule read_string_length)
  apply simp
  done

section \<open>Evaluation on concrete inputs\<close>

text \<open>
  The equations of the two loops are kept out of the simplifier and unfolded on demand. A
  budget or a count written as a numeral is unfolded one step at a time.
\<close>

declare compound_loop.simps [simp del] skip_compound_loop.simps [simp del]

lemma budget_numeral:
  "read_byte (numeral k) = read_byte (Suc (pred_numeral k))"
  "read_ubyte (numeral k) = read_ubyte (Suc (pred_numeral k))"
  "read_short (numeral k) = read_short (Suc (pred_numeral k))"
  "read_int (numeral k) = read_int (Suc (pred_numeral k))"
  "read_long (numeral k) = read_long (Suc (pred_numeral k))"
  "read_float (numeral k) = read_float (Suc (pred_numeral k))"
  "read_double (numeral k) = read_double (Suc (pred_numeral k))"
  "read_string (numeral k) = read_string (Suc (pred_numeral k))"
  "read_tag strict (numeral k) = read_tag strict (Suc (pred_numeral k))"
  "read_list strict (numeral k) = read_list strict (Suc (pred_numeral k))"
  "read_compound strict (numeral k) = read_compound strict (Suc (pred_numeral k))"
  "read_root strict (numeral k) = read_root strict (Suc (pred_numeral k))"
  "skip_tag (numeral k) = skip_tag (Suc (pred_numeral k))"
  "skip_compound (numeral k) = skip_compound (Suc (pred_numeral k))"
  "read_elems strict d t (numeral k) = read_elems strict d t (Suc (pred_numeral k))"
  "read_n f (numeral k) = read_n f (Suc (pred_numeral k))"
  "skip_elems d t (numeral k) = skip_elems d t (Suc (pred_numeral k))"
  by (simp_all only: numeral_eq_Suc)

lemmas ev = budget_numeral read_fixed_def stream_read_def unpack_def be_nat_def
  decode_utf8_def to_signed_def int_array_def is_cont_def compound_loop.simps
  skip_compound_loop.simps

section \<open>Unknown tag types\<close>

lemma read_tag_unknown_strict:
  "12 < t \<Longrightarrow> read_tag True (Suc d) t bs = Inl (ValueError t)"
  by simp

lemma read_tag_unknown_lenient:
  "12 < t \<Longrightarrow> read_tag False (Suc d) t bs = Inr (PNone, bs)"
  by simp

lemma skip_tag_unknown:
  "12 < t \<Longrightarrow> skip_tag (Suc d) t bs = Inr bs"
  by simp

text \<open>
  C4. A tag type outside 0..12 must make the dispatch fail with an error that carries the
  code. \<^verbatim>\<open>read_tag\<close> of \<^verbatim>\<open>complete_mcc_reader.py\<close> does so (\<open>read_tag_unknown_strict\<close>), but
  \<^verbatim>\<open>read_tag\<close> of \<^verbatim>\<open>snowball_timeline.py\<close> has lost the final \<^verbatim>\<open>else\<close>: for type 13 it reads
  nothing and returns \<^verbatim>\<open>None\<close>, so the root \<^verbatim>\<open>0D 00 01 61\<close> decodes to \<^verbatim>\<open>{'a': None}\<close> there,
  while the other file raises \<^verbatim>\<open>ValueError\<close> on the same bytes.
\<close>

theorem C4_snowball_accepts_unknown_tag:
  "read_tag False 1 13 [] = Inr (PNone, [])
   \<and> read_root False 3 [13, 0, 1, 97] = Inr (PDict [([97], PNone)], [])
   \<and> read_root True 3 [13, 0, 1, 97] = Inl (ValueError 13)"
  by (simp add: ev del: Suc_numeral)

section \<open>Truncated input\<close>

lemma read_fixed_short: "length bs < k \<Longrightarrow> read_fixed k bs = Inl StructError"
  by (simp add: read_fixed_def stream_read_def unpack_def)

lemma read_fixed_enough:
  "length buf = k \<Longrightarrow> read_fixed k (buf @ rest) = Inr (be_nat buf, rest)"
  by (simp add: read_fixed_def stream_read_def unpack_def)

lemma read_string_eq:
  "read_string (Suc d) (hi # lo # bs) =
     Inr (decode_utf8 (take (be_nat [hi, lo]) bs), drop (be_nat [hi, lo]) bs)"
  using read_fixed_enough[of "[hi, lo]" 2 bs]
  by (simp add: stream_read_def)

text \<open>
  C3. A buffer that ends in the middle of a payload must make the decode fail. Every
  fixed-width read does fail (\<open>read_fixed_short\<close>: \<^verbatim>\<open>struct.error\<close>), and so does an array
  that is cut short, element by element. \<^verbatim>\<open>read_string\<close> does not: it decodes whatever
  \<^verbatim>\<open>read(length)\<close> returned. The root String tag \<^verbatim>\<open>08 00 01 61 00 05 68 69\<close> declares five
  bytes of text and holds two; the decode returns \<^verbatim>\<open>{'a': 'hi'}\<close>.
\<close>

theorem C3_truncated_string_is_returned:
  "read_root True 4 [8, 0, 1, 97, 0, 5, 104, 105] = Inr (PDict [([97], PStr [104, 105])], [])
   \<and> read_string 1 [0, 5, 104, 105] = Inr ([104, 105], [])
   \<and> read_tag True 2 3 [0, 5, 104] = Inl StructError"
  by (simp add: ev del: Suc_numeral)

section \<open>Counts\<close>

lemma read_n_0: "read_n f 0 bs = Inr ([], bs)"
  by simp

lemma read_elems_End:
  "read_elems strict (Suc d) 0 n bs = Inr (replicate n PNone, bs)"
  by (induction n) simp_all

lemma read_int_budget: "read_int d bs = Inr (len, rest) \<Longrightarrow> \<exists>d'. d = Suc d'"
  by (cases d) simp_all

lemma read_ubyte_Cons: "read_ubyte (Suc d) (b # bs) = Inr (unat b, bs)"
  by (simp add: read_fixed_def stream_read_def unpack_def be_nat_def)

text \<open>
  C2 as stated fails: the array count \<^verbatim>\<open>FF FF FF FF\<close> is \<open>-1\<close>, and both the ByteArray and
  the List with that count decode, to the empty list.
\<close>

theorem C2_negative_count_counterexample:
  "to_signed 4 (be_nat [255, 255, 255, 255]) = - 1
   \<and> read_tag True 2 7 [255, 255, 255, 255] = Inr (PList [], [])
   \<and> read_tag True 3 9 [3, 255, 255, 255, 255] = Inr (PList [], [])"
  by (simp add: ev del: Suc_numeral)

text \<open>
  C2, amended. No reader checks the sign of a count: \<^verbatim>\<open>range(length)\<close> is empty for a
  negative \<^verbatim>\<open>length\<close>. A ByteArray, IntArray or LongArray whose count is negative, and a
  List whose count is negative (whatever its element type byte), decodes to the empty
  list and consumes the count field (and the type byte) only.
\<close>

theorem C2_negative_count_gives_empty_list:
  assumes "read_int d bs = Inr (len, rest)" and "len < 0"
  shows "read_tag strict (Suc d) 7 bs = Inr (PList [], rest)
       \<and> read_tag strict (Suc d) 11 bs = Inr (PList [], rest)
       \<and> read_tag strict (Suc d) 12 bs = Inr (PList [], rest)
       \<and> read_tag strict (Suc (Suc d)) 9 (tb # bs) = Inr (PList [], rest)"
proof -
  from assms(1) obtain d' where d: "d = Suc d'"
    by (auto dest: read_int_budget)
  from assms(2) have n: "nat len = 0" by simp
  have arr: "int_array f len rest = Inr (PList [], rest)" for f :: "bytes \<Rightarrow> int res"
    by (simp add: int_array_def n)
  have lst: "read_list strict (Suc d) (tb # bs) = Inr (PList [], rest)"
    using assms(1) by (simp add: d read_ubyte_Cons n del: read_int.simps read_ubyte.simps)
  show ?thesis
    using assms(1) arr lst by simp
qed

theorem C2_negative_count_witness:
  "read_int 1 [255, 255, 255, 254, 7] = Inr (- 2, [7])
   \<and> read_tag True 2 7 [255, 255, 255, 254, 7] = Inr (PList [], [7])
   \<and> read_tag True 2 11 [255, 255, 255, 254, 7] = Inr (PList [], [7])
   \<and> read_tag True 2 12 [255, 255, 255, 254, 7] = Inr (PList [], [7])
   \<and> read_tag True 3 9 [1, 255, 255, 255, 254, 7] = Inr (PList [], [7])"
proof -
  have a: "read_int (Suc 0) [255, 255, 255, 254, 7] = Inr (- 2, [7])"
    by (simp add: ev)
  have b: "(- 2 :: int) < 0" by simp
  have s: "(2::nat) = Suc (Suc 0)" "(3::nat) = Suc (Suc (Suc 0))" by simp_all
  from C2_negative_count_gives_empty_list[OF a b, of True 1] a
  show ?thesis unfolding s One_nat_def by blast
qed

text \<open>
  C9 as stated fails: a List with element type End and count 2 decodes, to two \<^verbatim>\<open>None\<close>s.
\<close>

theorem C9_end_list_counterexample:
  "read_tag True 3 9 [0, 0, 0, 0, 2] = Inr (PList [PNone, PNone], [])"
  by (simp add: ev del: Suc_numeral)

text \<open>
  C9, amended. \<^verbatim>\<open>read_tag\<close> returns \<^verbatim>\<open>None\<close> for type End without reading, so a List whose
  element type is End and whose count is \<open>n\<close> decodes to a list of \<open>n\<close> times \<^verbatim>\<open>None\<close> and
  consumes the five header bytes only.
\<close>

theorem C9_end_list_gives_nones:
  assumes "read_int d bs = Inr (len, rest)"
  shows "read_tag strict (Suc (Suc d)) 9 (0 # bs) = Inr (PList (replicate (nat len) PNone), rest)"
proof -
  from assms obtain d' where d: "d = Suc d'"
    by (auto dest: read_int_budget)
  show ?thesis
    using assms by (simp add: d read_ubyte_Cons read_elems_End del: read_int.simps read_ubyte.simps)
qed

theorem C9_end_list_witness:
  "read_int 1 [0, 0, 0, 3, 9] = Inr (3, [9])
   \<and> read_tag True 3 9 [0, 0, 0, 0, 3, 9] = Inr (PList [PNone, PNone, PNone], [9])"
proof -
  have a: "read_int (Suc 0) [0, 0, 0, 3, 9] = Inr (3, [9])"
    by (simp add: ev)
  have s: "(3::nat) = Suc (Suc (Suc 0))" by simp
  have r: "replicate (nat 3) PNone = [PNone, PNone, PNone]"
    by (simp add: numeral_3_eq_3)
  from C9_end_list_gives_nones[OF a, of True] a
  show ?thesis unfolding s One_nat_def r by simp
qed

lemma read_fixed_1: "read_fixed (Suc 0) (b # bs) = Inr (unat b, bs)"
  by (simp add: read_fixed_def stream_read_def unpack_def be_nat_def)

section \<open>Well-formed payloads\<close>

text \<open>
  The wire format of the length and count fields, to state what a well-formed payload is:
  an unsigned 16-bit and a 32-bit big-endian number.
\<close>

definition u16_be :: "nat \<Rightarrow> bytes" where
  "u16_be n = [of_nat (n div 256), of_nat n]"

definition u32_be :: "nat \<Rightarrow> bytes" where
  "u32_be n = [of_nat (n div 16777216), of_nat (n div 65536), of_nat (n div 256), of_nat n]"

lemma unat_byte: "unat (of_nat n :: byte) = n mod 256"
  by (simp add: unat_of_nat)

lemma be_nat_u16: "n < 65536 \<Longrightarrow> be_nat (u16_be n) = n"
  by (simp add: be_nat_def u16_be_def unat_byte)

lemma be_nat_u32:
  assumes "n < 4294967296"
  shows "be_nat (u32_be n) = n"
proof -
  define a where "a = n div 256"
  define b where "b = a div 256"
  define c where "c = b div 256"
  have b: "n div 65536 = b"
    unfolding b_def a_def by (simp add: div_mult2_eq[symmetric])
  have c: "n div 16777216 = c"
    unfolding c_def b_def a_def by (simp add: div_mult2_eq[symmetric])
  from assms have "n div 16777216 < 256"
    by (intro less_mult_imp_div_less) simp
  with c have lt: "c mod 256 = c" by simp
  have 1: "c * 256 + b mod 256 = b" unfolding c_def by simp
  have 2: "b * 256 + a mod 256 = a" unfolding b_def by simp
  have 3: "a * 256 + n mod 256 = n" unfolding a_def by simp
  have "be_nat (u32_be n) = ((c mod 256 * 256 + b mod 256) * 256 + a mod 256) * 256 + n mod 256"
    by (simp add: be_nat_def u32_be_def unat_byte b c a_def[symmetric])
  also have "\<dots> = n" by (simp only: lt 1 2 3)
  finally show ?thesis .
qed

lemma length_u16 [simp]: "length (u16_be n) = 2"
  by (simp add: u16_be_def)

lemma length_u32 [simp]: "length (u32_be n) = 4"
  by (simp add: u32_be_def)

lemma read_int_u32:
  "n < 2147483648 \<Longrightarrow> read_int (Suc d) (u32_be n @ rest) = Inr (int n, rest)"
  using read_fixed_enough[of "u32_be n" 4 rest]
  by (simp add: be_nat_u32 to_signed_def)

lemma read_string_u16:
  "length payload < 65536 \<Longrightarrow>
   read_string (Suc d) (u16_be (length payload) @ payload @ rest) = Inr (decode_utf8 payload, rest)"
  using read_fixed_enough[of "u16_be (length payload)" 2 "payload @ rest"]
  by (simp add: be_nat_u16 stream_read_def)


section \<open>Strings\<close>

lemma utf8_replace_ascii: "\<forall>b\<in>set bs. b < 128 \<Longrightarrow> utf8_replace bs = bs"
  by (induction bs) simp_all

lemma decode_utf8_ascii: "\<forall>b\<in>set bs. unat b < 128 \<Longrightarrow> decode_utf8 bs = map unat bs"
  by (simp add: decode_utf8_def utf8_replace_ascii)

lemma decode_utf8_invalid_start:
  "128 \<le> unat b \<and> unat b < 194 \<or> 245 \<le> unat b \<Longrightarrow>
   decode_utf8 (b # bs) = 65533 # decode_utf8 bs"
  by (auto simp: decode_utf8_def)

text \<open>
  C7 as stated fails. The prefix \<^verbatim>\<open>00 05\<close> declares five bytes; with two bytes left
  \<^verbatim>\<open>read_string\<close> reads those two and returns, so it does not always read exactly the
  declared number of bytes. Nor is invalid UTF-8 the only condition the readers let pass
  without aborting: a negative array count passes too.
\<close>

theorem C7_string_counterexample:
  "be_nat [0, 5] = 5
   \<and> read_string 1 [0, 5, 104, 105] = Inr ([104, 105], [])
   \<and> read_tag True 2 7 [255, 255, 255, 255] = Inr (PList [], [])"
  by (simp add: ev del: Suc_numeral)

text \<open>
  C7, amended. When the payload holds the bytes its prefix declares (the prefix being the
  unsigned big-endian number \<open>256 * hi + lo\<close>), \<^verbatim>\<open>read_string\<close> reads the two prefix bytes
  and exactly that many payload bytes, leaves the rest of the stream, and returns the lossy
  UTF-8 decoding of the payload; it does not fail, whatever the bytes are. ASCII text
  decodes to itself, and a byte that cannot start a sequence becomes U+FFFD while decoding
  goes on behind it.
\<close>

theorem C7_read_string_lossy:
  assumes "length payload = 256 * unat hi + unat lo"
  shows "read_string (Suc d) (hi # lo # payload @ rest) = Inr (decode_utf8 payload, rest)
       \<and> ((\<forall>b\<in>set payload. unat b < 128) \<longrightarrow> decode_utf8 payload = map unat payload)
       \<and> (\<forall>b bs. 128 \<le> unat b \<and> unat b < 194 \<or> 245 \<le> unat b \<longrightarrow>
             decode_utf8 (b # bs) = 65533 # decode_utf8 bs)"
proof -
  have "be_nat [hi, lo] = length payload"
    using assms by (simp add: be_nat_def)
  then have "read_string (Suc d) (hi # lo # payload @ rest) = Inr (decode_utf8 payload, rest)"
    by (simp add: read_string_eq del: read_string.simps)
  then show ?thesis
    using decode_utf8_ascii decode_utf8_invalid_start by blast
qed

text \<open>The three-byte string \<^verbatim>\<open>68 FF 69\<close>: the invalid byte becomes U+FFFD.\<close>

theorem C7_read_string_witness:
  "read_string 1 [0, 3, 104, 255, 105, 7] = Inr ([104, 65533, 105], [7])"
proof -
  have a: "length [104, 255, 105 :: byte] = 256 * unat (0 :: byte) + unat (3 :: byte)"
    by simp
  have "decode_utf8 [104, 255, 105] = [104, 65533, 105]"
    by (simp add: decode_utf8_def)
  with C7_read_string_lossy[OF a, of 0 "[7]"] show ?thesis
    by simp
qed

section \<open>Lists\<close>

lemma read_elems_append:
  assumes "\<forall>(p, v)\<in>set es. \<forall>rest. read_tag strict d t (p @ rest) = Inr (v, rest)"
  shows "read_elems strict d t (length es) (concat (map fst es) @ rest) = Inr (map snd es, rest)"
  using assms
proof (induction es)
  case Nil
  then show ?case by simp
next
  case (Cons e es)
  obtain p v where e: "e = (p, v)" by (cases e)
  from Cons.prems e have "read_tag strict d t (p @ concat (map fst es) @ rest)
      = Inr (v, concat (map fst es) @ rest)"
    by simp
  moreover from Cons have "read_elems strict d t (length es) (concat (map fst es) @ rest)
      = Inr (map snd es, rest)"
    by simp
  ultimately show ?case by (simp add: e)
qed

text \<open>
  C6. A List payload is a type byte, a 32-bit count and the payloads of that many
  elements. When each element payload decodes with \<^verbatim>\<open>read_tag\<close> at the element type, the
  List decodes to exactly the values of the elements, in order, and leaves the rest of the
  stream. With count 0 the result is the empty list for every type byte \<open>tb'\<close>, End and
  unknown types included, since \<^verbatim>\<open>read_tag\<close> is then never called.
\<close>

theorem C6_list_decodes_count_elements:
  assumes "length es < 2147483648"
    and "\<forall>(p, v)\<in>set es. \<forall>rest. read_tag strict (Suc d) (unat tb) (p @ rest) = Inr (v, rest)"
  shows "read_tag strict (Suc (Suc (Suc d))) 9 (tb # u32_be (length es) @ concat (map fst es) @ rest)
           = Inr (PList (map snd es), rest)
       \<and> read_tag strict (Suc (Suc (Suc d))) 9 (tb' # u32_be 0 @ rest) = Inr (PList [], rest)"
proof -
  have "read_list strict (Suc (Suc d)) (tb # u32_be (length es) @ concat (map fst es) @ rest)
      = Inr (PList (map snd es), rest)"
    using read_elems_append[OF assms(2), of rest] assms(1)
    by (simp add: read_fixed_1 read_int_u32 del: read_int.simps)
  moreover have "read_list strict (Suc (Suc d)) (tb' # u32_be 0 @ rest) = Inr (PList [], rest)"
    using read_int_u32[of 0 d rest] by (simp add: read_fixed_1 del: read_int.simps)
  ultimately show ?thesis by simp
qed

text \<open>A List of three Ints, and an empty List with element type End.\<close>

theorem C6_list_witness:
  "read_tag True 4 9 [3, 0, 0, 0, 3, 0, 0, 0, 1, 0, 0, 0, 2, 255, 255, 255, 255, 9]
     = Inr (PList [PInt 1, PInt 2, PInt (- 1)], [9])
   \<and> read_tag True 4 9 [0, 0, 0, 0, 0, 9] = Inr (PList [], [9])"
proof -
  let ?es = "[([0, 0, 0, 1], PInt 1), ([0, 0, 0, 2], PInt 2), ([255, 255, 255, 255], PInt (- 1))]
             :: (bytes \<times> pyval) list"
  have a: "length ?es < 2147483648" by simp
  have b: "\<forall>(p, v)\<in>set ?es. \<forall>rest. read_tag True (Suc (Suc 0)) (unat (3 :: byte)) (p @ rest) = Inr (v, rest)"
    by (simp add: ev)
  have s: "(4 :: nat) = Suc (Suc (Suc (Suc 0)))" by simp
  have e1: "(3 :: byte) # u32_be (length ?es) @ concat (map fst ?es) @ [9]
      = [3, 0, 0, 0, 3, 0, 0, 0, 1, 0, 0, 0, 2, 255, 255, 255, 255, 9]"
    by (simp add: u32_be_def)
  have e2: "map snd ?es = [PInt 1, PInt 2, PInt (- 1)]" by simp
  have e3: "(0 :: byte) # u32_be 0 @ [9] = [0, 0, 0, 0, 0, 9]"
    by (simp add: u32_be_def)
  note th = C6_list_decodes_count_elements[OF a b, of "[9]" 0, unfolded e1 e2 e3]
  show ?thesis unfolding s by (rule th)
qed


section \<open>Compounds\<close>

text \<open>The \<^verbatim>\<open>dict\<close> built by assigning the items in order, as the loop of \<^verbatim>\<open>read_compound\<close> does.\<close>

definition dict_of_items :: "(pystr \<times> pyval) list \<Rightarrow> pydict" where
  "dict_of_items kvs = foldl (\<lambda>acc (k, v). dict_set acc k v) [] kvs"

text \<open>
  An entry of a Compound payload: the type byte, the name (its raw bytes behind their
  16-bit length) and the payload of the value. \<open>entry_item\<close> is the (name, value) pair it
  stands for.
\<close>

type_synonym entry = "byte \<times> bytes \<times> bytes \<times> pyval"

definition enc_entry :: "entry \<Rightarrow> bytes" where
  "enc_entry e = (case e of (tb, nm, p, v) \<Rightarrow> tb # u16_be (length nm) @ nm @ p)"

definition entry_item :: "entry \<Rightarrow> pystr \<times> pyval" where
  "entry_item e = (case e of (tb, nm, p, v) \<Rightarrow> (decode_utf8 nm, v))"

lemma enc_entry_simp: "enc_entry (tb, nm, p, v) = tb # u16_be (length nm) @ nm @ p"
  by (simp add: enc_entry_def)

lemma entry_item_simp: "entry_item (tb, nm, p, v) = (decode_utf8 nm, v)"
  by (simp add: entry_item_def)

lemma map_of_dict_set: "map_of (dict_set D k v) = (map_of D)(k \<mapsto> v)"
  by (induction D k v rule: dict_set.induct) auto

lemma keys_dict_set: "set (map fst (dict_set D k v)) = insert k (set (map fst D))"
  by (induction D k v rule: dict_set.induct) auto

lemma distinct_dict_set:
  "distinct (map fst D) \<Longrightarrow> distinct (map fst (dict_set D k v))"
proof (induction D k v rule: dict_set.induct)
  case (1 k v)
  then show ?case by simp
next
  case (2 k' v' kvs k v)
  then show ?case
    using keys_dict_set[of kvs k v] by (auto simp del: keys_dict_set)
qed

lemma dict_set_new: "k \<notin> set (map fst D) \<Longrightarrow> dict_set D k v = D @ [(k, v)]"
  by (induction D k v rule: dict_set.induct) auto

lemma foldl_dict_set_map_of:
  "map_of (foldl (\<lambda>acc (k, v). dict_set acc k v) acc kvs) = map_of acc ++ map_of (rev kvs)"
proof (induction kvs arbitrary: acc)
  case Nil
  then show ?case by simp
next
  case (Cons kv kvs)
  obtain k v where kv: "kv = (k, v)" by (cases kv)
  have "map_of (foldl (\<lambda>acc (k, v). dict_set acc k v) (dict_set acc k v) kvs)
      = map_of (dict_set acc k v) ++ map_of (rev kvs)"
    by (rule Cons.IH)
  also have "\<dots> = (map_of acc)(k \<mapsto> v) ++ map_of (rev kvs)"
    by (simp only: map_of_dict_set)
  also have "\<dots> = map_of acc ++ map_of (rev (kv # kvs))"
    by (auto simp: map_add_def fun_eq_iff kv split: option.splits)
  finally show ?case by (simp add: kv)
qed

lemma foldl_dict_set_distinct:
  "distinct (map fst acc) \<Longrightarrow> distinct (map fst (foldl (\<lambda>acc (k, v). dict_set acc k v) acc kvs))"
  by (induction kvs arbitrary: acc) (auto simp: distinct_dict_set)

lemma foldl_dict_set_fresh:
  "distinct (map fst (acc @ kvs)) \<Longrightarrow> foldl (\<lambda>acc (k, v). dict_set acc k v) acc kvs = acc @ kvs"
proof (induction kvs arbitrary: acc)
  case Nil
  then show ?case by simp
next
  case (Cons kv kvs)
  obtain k v where kv: "kv = (k, v)" by (cases kv)
  from Cons.prems have new: "k \<notin> set (map fst acc)" by (auto simp: kv)
  from Cons.prems have "distinct (map fst ((acc @ [(k, v)]) @ kvs))" by (simp add: kv)
  from Cons.IH[OF this] show ?case by (simp add: kv dict_set_new[OF new])
qed

lemma dict_of_items_last_wins: "map_of (dict_of_items kvs) = map_of (rev kvs)"
  by (simp add: dict_of_items_def foldl_dict_set_map_of)

lemma dict_of_items_distinct: "distinct (map fst (dict_of_items kvs))"
  by (simp add: dict_of_items_def foldl_dict_set_distinct)

lemma dict_of_items_read_order: "distinct (map fst kvs) \<Longrightarrow> dict_of_items kvs = kvs"
  using foldl_dict_set_fresh[of "[]" kvs] by (simp add: dict_of_items_def)

lemma compound_loop_entries:
  assumes "\<forall>(tb, nm, p, v)\<in>set es. tb \<noteq> 0 \<and> length nm < 65536
             \<and> (\<forall>rest. read_tag strict (Suc d) (unat tb) (p @ rest) = Inr (v, rest))"
  shows "compound_loop strict (Suc d) acc (concat (map enc_entry es) @ 0 # rest)
       = Inr (PDict (foldl (\<lambda>acc (k, v). dict_set acc k v) acc (map entry_item es)), rest)"
  using assms
proof (induction es arbitrary: acc)
  case Nil
  then show ?case by (simp add: compound_loop.simps read_fixed_1)
next
  case (Cons e es)
  obtain tb nm p v where e: "e = (tb, nm, p, v)" by (cases e)
  let ?more = "concat (map enc_entry es) @ 0 # rest"
  from Cons.prems e have tb: "unat tb \<noteq> 0" and nm: "length nm < 65536"
    and val: "read_tag strict (Suc d) (unat tb) (p @ ?more) = Inr (v, ?more)"
    by (auto simp: unat_eq_0 simp del: read_tag.simps)
  from Cons.prems have "\<forall>(tb, nm, p, v)\<in>set es. tb \<noteq> 0 \<and> length nm < 65536
             \<and> (\<forall>rest. read_tag strict (Suc d) (unat tb) (p @ rest) = Inr (v, rest))"
    by (simp del: read_tag.simps)
  note IH = Cons.IH[OF this, of "dict_set acc (decode_utf8 nm) v"]
  have "compound_loop strict (Suc d) acc (tb # u16_be (length nm) @ nm @ p @ ?more)
      = compound_loop strict (Suc d) (dict_set acc (decode_utf8 nm) v) ?more"
    using tb val read_string_u16[OF nm, of d "p @ ?more"]
    by (subst compound_loop.simps)
       (simp add: read_fixed_1 del: read_string.simps read_tag.simps)
  with IH show ?case by (simp add: e enc_entry_simp entry_item_simp)
qed

text \<open>
  C5. A well-formed Compound payload is a sequence of entries, each a type byte other
  than End, a name behind its 16-bit length and the payload of a value, closed by an End
  byte. \<^verbatim>\<open>read_tag\<close> for type 10 reads the entries one after the other, stops at the End byte
  and leaves what follows it, and returns the \<^verbatim>\<open>dict\<close> obtained by assigning the (name,
  value) pairs in read order. In that \<^verbatim>\<open>dict\<close> every name occurs once, a name looks up the
  value of its last occurrence, and when the names are all different the items are the
  entries in read order.
\<close>

theorem C5_compound_decodes_entries:
  assumes "\<forall>(tb, nm, p, v)\<in>set es. tb \<noteq> 0 \<and> length nm < 65536
             \<and> (\<forall>rest. read_tag strict (Suc d) (unat tb) (p @ rest) = Inr (v, rest))"
  shows "read_tag strict (Suc (Suc (Suc d))) 10 (concat (map enc_entry es) @ 0 # rest)
           = Inr (PDict (dict_of_items (map entry_item es)), rest)
       \<and> map_of (dict_of_items (map entry_item es)) = map_of (rev (map entry_item es))
       \<and> distinct (map fst (dict_of_items (map entry_item es)))
       \<and> (distinct (map fst (map entry_item es))
            \<longrightarrow> dict_of_items (map entry_item es) = map entry_item es)"
  using compound_loop_entries[OF assms, of "[]" rest]
  by (simp add: dict_of_items_def[symmetric] dict_of_items_last_wins dict_of_items_distinct
      dict_of_items_read_order)

text \<open>Three entries, the name \<^verbatim>\<open>a\<close> twice: the later Byte 7 replaces 5 in first position.\<close>

theorem C5_compound_witness:
  "read_tag True 4 10 [1, 0, 1, 97, 5, 8, 0, 1, 98, 0, 1, 99, 1, 0, 1, 97, 7, 0, 42]
     = Inr (PDict [([97], PInt 7), ([98], PStr [99])], [42])"
proof -
  let ?es = "[(1, [97], [5], PInt 5), (8, [98], [0, 1, 99], PStr [99]), (1, [97], [7], PInt 7)]
             :: entry list"
  have a: "\<forall>(tb, nm, p, v)\<in>set ?es. tb \<noteq> 0 \<and> length nm < 65536
             \<and> (\<forall>rest. read_tag True (Suc (Suc 0)) (unat tb) (p @ rest) = Inr (v, rest))"
    by (simp add: ev)
  have s: "(4 :: nat) = Suc (Suc (Suc (Suc 0)))" by simp
  have e1: "concat (map enc_entry ?es) @ 0 # [42]
      = [1, 0, 1, 97, 5, 8, 0, 1, 98, 0, 1, 99, 1, 0, 1, 97, 7, 0, 42]"
    by (simp add: enc_entry_simp u16_be_def)
  have e2: "dict_of_items (map entry_item ?es) = [([97], PInt 7), ([98], PStr [99])]"
    by (simp add: dict_of_items_def entry_item_simp decode_utf8_def)
  note th = C5_compound_decodes_entries[OF a, of "[42]", THEN conjunct1, unfolded e1 e2]
  show ?thesis unfolding s by (rule th)
qed

section \<open>Nesting depth\<close>

text \<open>
  No reader has a parameter or a counter for the nesting depth. What this means for the
  inputs is stated with the budget as fuel: \<open>decodes strict t p v\<close> says that with every
  budget that is large enough, \<^verbatim>\<open>read_tag\<close> at type \<open>t\<close> consumes exactly the payload \<open>p\<close>,
  whatever follows it, and returns \<open>v\<close>.
\<close>

definition decodes :: "bool \<Rightarrow> nat \<Rightarrow> bytes \<Rightarrow> pyval \<Rightarrow> bool" where
  "decodes strict t p v =
     (\<exists>d0. \<forall>d\<ge>d0. \<forall>rest. read_tag strict d t (p @ rest) = Inr (v, rest))"

text \<open>
  A well-formed entry of a Compound: a type byte other than End, a name that fits its
  16-bit length, and a payload that decodes.
\<close>

definition wf_entry :: "bool \<Rightarrow> entry \<Rightarrow> bool" where
  "wf_entry strict e =
     (case e of (tb, nm, p, v) \<Rightarrow> tb \<noteq> 0 \<and> length nm < 65536 \<and> decodes strict (unat tb) p v)"

text \<open>
  Compounds nested to any depth. A level is a Compound that holds some entries, then an
  entry of type Compound under a name, then some more entries; \<open>nest ls\<close> is the payload of
  the outermost Compound of the levels \<open>ls\<close>, each level lying in the Compound entry of the
  one before, with an empty Compound innermost. \<open>nest_val ls\<close> is the value it stands for.
  The payload \<open>nest ls\<close> is nested \<open>length ls + 1\<close> Compounds deep.
\<close>

type_synonym level = "entry list \<times> bytes \<times> entry list"

fun nest :: "level list \<Rightarrow> bytes" and nest_val :: "level list \<Rightarrow> pyval" where
  "nest [] = [0]"
| "nest ((pre, nm, post) # ls) =
     concat (map enc_entry (pre @ [(10, nm, nest ls, nest_val ls)] @ post)) @ [0]"
| "nest_val [] = PDict []"
| "nest_val ((pre, nm, post) # ls) =
     PDict (dict_of_items (map entry_item (pre @ [(10, nm, nest ls, nest_val ls)] @ post)))"

text \<open>Finitely many entries that decode have a budget that suffices for them all.\<close>

lemma common_budget:
  "\<forall>e\<in>set es. wf_entry strict e \<Longrightarrow>
   \<exists>D. \<forall>(tb, nm, p, v)\<in>set es. \<forall>d\<ge>D. \<forall>rest.
         read_tag strict d (unat tb) (p @ rest) = Inr (v, rest)"
proof (induction es)
  case Nil
  then show ?case by simp
next
  case (Cons e es)
  obtain tb nm p v where e: "e = (tb, nm, p, v)" by (cases e)
  from Cons.prems e obtain d1 where
    d1: "\<forall>d\<ge>d1. \<forall>rest. read_tag strict d (unat tb) (p @ rest) = Inr (v, rest)"
    by (auto simp: wf_entry_def decodes_def)
  from Cons obtain D where
    D: "\<forall>(tb, nm, p, v)\<in>set es. \<forall>d\<ge>D. \<forall>rest.
         read_tag strict d (unat tb) (p @ rest) = Inr (v, rest)"
    by auto
  have "\<forall>(tb, nm, p, v)\<in>set (e # es). \<forall>d\<ge>max d1 D. \<forall>rest.
         read_tag strict d (unat tb) (p @ rest) = Inr (v, rest)"
    using d1 D by (auto simp: e)
  then show ?case ..
qed

text \<open>
  The step of nesting: a Compound of well-formed entries decodes, three levels of budget
  above its entries. The entries may be Compounds themselves.
\<close>

lemma decodes_compound:
  assumes "\<forall>e\<in>set es. wf_entry strict e"
  shows "decodes strict 10 (concat (map enc_entry es) @ [0])
           (PDict (dict_of_items (map entry_item es)))"
proof -
  from common_budget[OF assms] obtain D where
    D: "\<forall>(tb, nm, p, v)\<in>set es. \<forall>d\<ge>D. \<forall>rest.
         read_tag strict d (unat tb) (p @ rest) = Inr (v, rest)"
    by blast
  have "read_tag strict d 10 ((concat (map enc_entry es) @ [0]) @ rest)
      = Inr (PDict (dict_of_items (map entry_item es)), rest)" if "D + 3 \<le> d" for d rest
  proof -
    from that obtain d' where d: "d = Suc (Suc (Suc d'))" and le: "D \<le> Suc d'"
      by (cases d; cases "d - 1"; cases "d - 2") auto
    have "\<forall>(tb, nm, p, v)\<in>set es. tb \<noteq> 0 \<and> length nm < 65536
             \<and> (\<forall>rest. read_tag strict (Suc d') (unat tb) (p @ rest) = Inr (v, rest))"
      using assms D le by (fastforce simp: wf_entry_def simp del: read_tag.simps)
    from compound_loop_entries[OF this, of "[]" rest] show ?thesis
      by (simp add: d dict_of_items_def)
  qed
  then show ?thesis unfolding decodes_def by blast
qed

lemma decodes_nest:
  assumes "\<forall>(pre, nm, post)\<in>set ls. length nm < 65536
             \<and> (\<forall>e\<in>set pre \<union> set post. wf_entry strict e)"
  shows "decodes strict 10 (nest ls) (nest_val ls)"
  using assms
proof (induction ls)
  case Nil
  from decodes_compound[of "[]" strict] show ?case by (simp add: dict_of_items_def)
next
  case (Cons l ls)
  obtain pre nm post where l: "l = (pre, nm, post)" by (cases l)
  from Cons have inner: "decodes strict 10 (nest ls) (nest_val ls)" by simp
  from Cons.prems l have nm: "length nm < 65536"
    and sib: "\<forall>e\<in>set pre \<union> set post. wf_entry strict e"
    by simp_all
  from inner nm have "wf_entry strict (10, nm, nest ls, nest_val ls)"
    by (simp add: wf_entry_def)
  with sib have "\<forall>e\<in>set (pre @ [(10, nm, nest ls, nest_val ls)] @ post). wf_entry strict e"
    by auto
  from decodes_compound[OF this] show ?case by (simp add: l)
qed

text \<open>
  C1 as stated fails: the readers take no maximum depth and have no error for it. A
  Compound nested two deep, deeper than a configured maximum of 1 would allow, decodes.
\<close>

theorem C1_no_depth_limit_counterexample:
  "read_root True 100 [10, 0, 0, 10, 0, 0, 0, 0] = Inr (PDict [([], PDict [([], PDict [])])], [])"
  by (simp add: ev del: Suc_numeral)

text \<open>
  C1, amended. The decoder sets no bound on the nesting depth. For every list of levels,
  of any length, with any names and any well-formed entries beside the nested Compound at
  each level, the root Compound decodes to the nested \<^verbatim>\<open>dict\<close>, provided the budget for
  nested calls is large enough. What happens when the call stack of the interpreter does
  not suffice is the interpreter's matter, not the decoder's.
\<close>

theorem C1_compounds_decode_at_any_depth:
  assumes "\<forall>(pre, nm, post)\<in>set ls. length nm < 65536
             \<and> (\<forall>e\<in>set pre \<union> set post. wf_entry strict e)"
    and "length root_name < 65536"
  shows "\<exists>d0. \<forall>d\<ge>d0. \<forall>rest.
           read_root strict d (10 # u16_be (length root_name) @ root_name @ nest ls @ rest)
             = Inr (PDict [(decode_utf8 root_name, nest_val ls)], rest)"
proof -
  from decodes_nest[OF assms(1)] obtain d1 where
    d1: "\<forall>d\<ge>d1. \<forall>rest. read_tag strict d 10 (nest ls @ rest) = Inr (nest_val ls, rest)"
    unfolding decodes_def by blast
  have "read_root strict d (10 # u16_be (length root_name) @ root_name @ nest ls @ rest)
      = Inr (PDict [(decode_utf8 root_name, nest_val ls)], rest)" if "d1 + 2 \<le> d" for d rest
  proof -
    from that obtain d' where d: "d = Suc (Suc d')" and le: "d1 \<le> Suc d'"
      by (cases d; cases "d - 1") auto
    from d1 le have "read_tag strict (Suc d') 10 (nest ls @ rest) = Inr (nest_val ls, rest)"
      by blast
    with read_string_u16[OF assms(2), of d' "nest ls @ rest"] show ?thesis
      by (simp add: d read_fixed_1 del: read_string.simps read_tag.simps)
  qed
  then show ?thesis by blast
qed


text \<open>
  The root \<^verbatim>\<open>a\<close> holding a Byte \<^verbatim>\<open>x\<close> and a Compound \<^verbatim>\<open>b\<close>, which holds an empty Compound
  \<^verbatim>\<open>c\<close>: three Compounds deep.
\<close>

theorem C1_any_depth_witness:
  "\<exists>d0. \<forall>d\<ge>d0. \<forall>rest.
     read_root True d
       ([10, 0, 1, 97, 1, 0, 1, 120, 5, 10, 0, 1, 98, 10, 0, 1, 99, 0, 0, 0] @ rest)
     = Inr (PDict [([97], PDict [([120], PInt 5), ([98], PDict [([99], PDict [])])])], rest)"
proof -
  let ?ls = "[([(1, [120], [5], PInt 5)], [98], []), ([], [99], [])] :: level list"
  have w: "decodes True (Suc 0) [5] (PInt 5)"
    unfolding decodes_def
  proof (intro exI[of _ 2] allI impI)
    fix d :: nat and rest :: bytes
    assume "2 \<le> d"
    then obtain d' where "d = Suc (Suc d')"
      by (cases d; cases "d - 1") auto
    then show "read_tag True d (Suc 0) ([5] @ rest) = Inr (PInt 5, rest)"
      by (simp add: ev)
  qed
  have a: "\<forall>(pre, nm, post)\<in>set ?ls. length nm < 65536
             \<and> (\<forall>e\<in>set pre \<union> set post. wf_entry True e)"
    by (simp add: wf_entry_def w)
  have b: "length [97 :: byte] < 65536" by simp
  have e1: "10 # u16_be (length [97 :: byte]) @ [97] @ nest ?ls @ rest
      = [10, 0, 1, 97, 1, 0, 1, 120, 5, 10, 0, 1, 98, 10, 0, 1, 99, 0, 0, 0] @ rest" for rest
    by (simp add: enc_entry_simp u16_be_def)
  have e2: "nest_val ?ls = PDict [([120], PInt 5), ([98], PDict [([99], PDict [])])]"
    by (simp add: dict_of_items_def entry_item_simp decode_utf8_def)
  have e3: "decode_utf8 [97] = [97]" by (simp add: decode_utf8_def)
  note th = C1_compounds_decode_at_any_depth[OF a b, unfolded e1 e2 e3]
  show ?thesis by (rule th)
qed

section \<open>Skipping against reading\<close>

text \<open>No read gives bytes back: the rest of the stream is never longer than the stream.\<close>

lemma read_length:
  "read_tag strict d t bs = Inr (v, rest) \<Longrightarrow> length rest \<le> length bs"
  "read_list strict1 d1 bs1 = Inr (v1, rest1) \<Longrightarrow> length rest1 \<le> length bs1"
  "read_elems strict2 d2 t2 n2 bs2 = Inr (v2, rest2) \<Longrightarrow> length rest2 \<le> length bs2"
  "read_compound strict3 d3 bs3 = Inr (v3, rest3) \<Longrightarrow> length rest3 \<le> length bs3"
  "compound_loop strict4 d4 acc4 bs4 = Inr (v4, rest4) \<Longrightarrow> length rest4 \<le> length bs4"
proof (induct strict d t bs and strict1 d1 bs1 and strict2 d2 t2 n2 bs2 and strict3 d3 bs3
     and strict4 d4 acc4 bs4
     arbitrary: v rest and v1 rest1 and v2 rest2 and v3 rest3 and v4 rest4
     rule: read_tag_read_list_read_elems_read_compound_compound_loop.induct)
  case (1 strict t bs)
  then show ?case by simp
next
  case (2 strict d t bs)
  note eq = 2(3)[unfolded read_tag.simps(2)]
  note IHlist = 2(1) and IHcomp = 2(2)
  consider "t = 9" | "t = 10" | "t \<noteq> 9" "t \<noteq> 10" by blast
  then show ?case
  proof cases
    case 1
    with eq IHlist show ?thesis by simp
  next
    case 2
    with eq IHcomp show ?thesis by simp
  next
    case 3
    with eq show ?thesis
      by (simp split: if_splits sum.splits prod.splits)
         (auto dest!: read_int_length array_length dest: prim_length)
  qed
next
  case (3 strict bs)
  then show ?case by simp
next
  case (4 strict d bs)
  note eq = 4(2)[unfolded read_list.simps(2)]
  from eq obtain tt b1 where a: "read_ubyte d bs = Inr (tt, b1)"
    by (auto split: sum.splits prod.splits)
  with eq obtain len b2 where b: "read_int d b1 = Inr (len, b2)"
    by (auto split: sum.splits prod.splits)
  with eq a obtain vs where c: "read_elems strict d tt (nat len) b2 = Inr (vs, rest1)"
    by (auto split: sum.splits prod.splits)
  from 4(1)[OF a refl b refl c] have "length rest1 \<le> length b2" .
  with read_ubyte_length[OF a] read_int_length[OF b] show ?case by simp
next
  case (5 strict d t bs)
  then show ?case by simp
next
  case (6 strict d t n bs)
  note eq = 6(3)[unfolded read_elems.simps(2)]
  from eq obtain x b1 where a: "read_tag strict d t bs = Inr (x, b1)"
    by (auto split: sum.splits prod.splits)
  with eq obtain xs where b: "read_elems strict d t n b1 = Inr (xs, rest2)"
    by (auto split: sum.splits prod.splits)
  from 6(1)[OF a] 6(2)[OF a refl b] show ?case by simp
next
  case (7 strict bs)
  then show ?case by simp
next
  case (8 strict d bs)
  then show ?case by simp
next
  case (9 strict d result bs)
  note eq = 9(3)[unfolded compound_loop.simps[of strict d result bs]]
  from eq obtain tt b1 where a: "read_ubyte d bs = Inr (tt, b1)"
    by (auto split: sum.splits prod.splits)
  show ?case
  proof (cases "tt = 0")
    case True
    with eq a read_ubyte_length[OF a] show ?thesis by simp
  next
    case False
    with eq a obtain name b2 where b: "read_string d b1 = Inr (name, b2)"
      by (auto split: sum.splits prod.splits)
    with eq a False obtain x b3 where c: "read_tag strict d tt b2 = Inr (x, b3)"
      by (auto split: sum.splits prod.splits)
    with eq a b False
    have e: "compound_loop strict d (dict_set result name x) b3 = Inr (v4, rest4)"
      by simp
    from 9(1)[OF a refl False b refl c] 9(2)[OF a refl False b refl c refl e]
      read_ubyte_length[OF a] read_string_length[OF b]
    show ?thesis by simp
  qed
qed

text \<open>
  \<open>counts_ok_tag strict d t bs\<close> holds when no ByteArray, IntArray or LongArray count that
  \<^verbatim>\<open>read_tag\<close> decodes on its way through \<open>bs\<close> is negative. It follows the calls of
  \<^verbatim>\<open>read_tag\<close>, \<^verbatim>\<open>read_list\<close> and \<^verbatim>\<open>read_compound\<close> and looks at the count of every array it
  meets; it is a predicate on inputs, not a part of the readers.
\<close>

function (sequential)
    counts_ok_tag :: "bool \<Rightarrow> nat \<Rightarrow> nat \<Rightarrow> bytes \<Rightarrow> bool"
and counts_ok_list :: "bool \<Rightarrow> nat \<Rightarrow> bytes \<Rightarrow> bool"
and counts_ok_elems :: "bool \<Rightarrow> nat \<Rightarrow> nat \<Rightarrow> nat \<Rightarrow> bytes \<Rightarrow> bool"
and counts_ok_compound :: "bool \<Rightarrow> nat \<Rightarrow> bytes \<Rightarrow> bool"
and counts_ok_loop :: "bool \<Rightarrow> nat \<Rightarrow> bytes \<Rightarrow> bool"
where
  "counts_ok_tag strict 0 tag_type bs = True"
| "counts_ok_tag strict (Suc d) tag_type bs =
    (if tag_type = 7 \<or> tag_type = 11 \<or> tag_type = 12 then
       (case read_int d bs of Inl e \<Rightarrow> True | Inr (len, rest) \<Rightarrow> 0 \<le> len)
     else if tag_type = 9 then counts_ok_list strict d bs
     else if tag_type = 10 then counts_ok_compound strict d bs
     else True)"
| "counts_ok_list strict 0 bs = True"
| "counts_ok_list strict (Suc d) bs =
    (case read_ubyte d bs of Inl e \<Rightarrow> True
     | Inr (tag_type, bs1) \<Rightarrow>
        (case read_int d bs1 of Inl e \<Rightarrow> True
         | Inr (len, bs2) \<Rightarrow> counts_ok_elems strict d tag_type (nat len) bs2))"
| "counts_ok_elems strict d tag_type 0 bs = True"
| "counts_ok_elems strict d tag_type (Suc n) bs =
    (case read_tag strict d tag_type bs of Inl e \<Rightarrow> counts_ok_tag strict d tag_type bs
     | Inr (v, bs1) \<Rightarrow>
        if counts_ok_tag strict d tag_type bs then counts_ok_elems strict d tag_type n bs1
        else False)"
| "counts_ok_compound strict 0 bs = True"
| "counts_ok_compound strict (Suc d) bs = counts_ok_loop strict d bs"
| "counts_ok_loop strict d bs =
    (case read_ubyte d bs of Inl e \<Rightarrow> True
     | Inr (tag_type, bs1) \<Rightarrow>
        if tag_type = 0 then True
        else (case read_string d bs1 of Inl e \<Rightarrow> True
          | Inr (name, bs2) \<Rightarrow>
             (case read_tag strict d tag_type bs2 of
                Inl e \<Rightarrow> counts_ok_tag strict d tag_type bs2
              | Inr (v, bs3) \<Rightarrow>
                 if counts_ok_tag strict d tag_type bs2 then counts_ok_loop strict d bs3
                 else False)))"
  by pat_completeness auto
termination counts_ok_tag
  apply (relation "inv_image (less_than <*lex*> less_than <*lex*> less_than)
    (\<lambda>x. case x of
       Inl (Inl (s, d, t, bs)) \<Rightarrow> (d, 0::nat, 0::nat)
     | Inl (Inr (s, d, bs)) \<Rightarrow> (d, 0, 0)
     | Inr (Inl (s, d, t, n, bs)) \<Rightarrow> (d, 1, n)
     | Inr (Inr (Inl (s, d, bs))) \<Rightarrow> (d, 0, 0)
     | Inr (Inr (Inr (s, d, bs))) \<Rightarrow> (d, 1, length bs))")
            apply (intro wf_inv_image wf_lex_prod wf_less_than)
           apply simp_all
  apply clarsimp
  apply (drule read_length(1))
  apply (drule read_ubyte_length)
  apply (drule read_string_length)
  apply simp
  done


text \<open>
  A primitive read does not depend on how much budget is left beyond the level it needs,
  and it consumes exactly the width of its format; a bare \<^verbatim>\<open>read(n)\<close> with \<open>n \<ge> 0\<close> consumes
  \<open>n\<close> bytes when they are there.
\<close>

declare counts_ok_loop.simps [simp del]

lemma read_ubyte_mono: "read_ubyte d bs = Inr r \<Longrightarrow> d \<le> e \<Longrightarrow> read_ubyte e bs = Inr r"
  by (cases d; cases e) simp_all

lemma read_int_mono: "read_int d bs = Inr r \<Longrightarrow> d \<le> e \<Longrightarrow> read_int e bs = Inr r"
  by (cases d; cases e) simp_all

lemma read_string_mono: "read_string d bs = Inr r \<Longrightarrow> d \<le> e \<Longrightarrow> read_string e bs = Inr r"
  by (cases d; cases e) simp_all

lemma read_fixed_rest: "read_fixed k bs = Inr (n, rest) \<Longrightarrow> rest = drop k bs"
  by (auto simp: read_fixed_def stream_read_def unpack_def split: if_splits)

lemma skip_fixed: "0 \<le> n \<Longrightarrow> snd (stream_read n bs) = drop (nat n) bs"
  by (simp add: stream_read_def)

lemma read_byte_rest: "read_byte d bs = Inr (n, rest) \<Longrightarrow> rest = drop 1 bs"
  by (cases d) (auto dest: read_fixed_rest split: sum.splits)

lemma read_short_rest: "read_short d bs = Inr (n, rest) \<Longrightarrow> rest = drop 2 bs"
  by (cases d) (auto dest: read_fixed_rest split: sum.splits)

lemma read_int_rest: "read_int d bs = Inr (n, rest) \<Longrightarrow> rest = drop 4 bs"
  by (cases d) (auto dest: read_fixed_rest split: sum.splits)

lemma read_long_rest: "read_long d bs = Inr (n, rest) \<Longrightarrow> rest = drop 8 bs"
  by (cases d) (auto dest: read_fixed_rest split: sum.splits)

lemma read_float_rest: "read_float d bs = Inr (v, rest) \<Longrightarrow> rest = drop 4 bs"
  by (cases d) (auto dest: read_fixed_rest split: sum.splits)

lemma read_double_rest: "read_double d bs = Inr (v, rest) \<Longrightarrow> rest = drop 8 bs"
  by (cases d) (auto dest: read_fixed_rest split: sum.splits)

lemma read_n_rest:
  assumes "\<And>b x r. f b = Inr (x, r) \<Longrightarrow> r = drop k b"
  shows "read_n f n bs = Inr (xs, rest) \<Longrightarrow> rest = drop (n * k) bs"
proof (induction n arbitrary: bs xs)
  case 0
  then show ?case by simp
next
  case (Suc n)
  from Suc.prems obtain x b1 ys where a: "f bs = Inr (x, b1)"
    and b: "read_n f n b1 = Inr (ys, rest)"
    by (auto split: sum.splits prod.splits)
  from assms[OF a] Suc.IH[OF b] show ?case by (simp add: add.commute)
qed

lemma int_array_rest:
  assumes "\<And>b x r. f b = Inr (x, r) \<Longrightarrow> r = drop k b"
    and "int_array f len bs = Inr (v, rest)"
  shows "rest = drop (nat len * k) bs"
proof -
  from assms(2) obtain xs where "read_n f (nat len) bs = Inr (xs, rest)"
    by (auto simp: int_array_def split: sum.splits prod.splits)
  with assms(1) show ?thesis by (rule read_n_rest)
qed

lemma skip_leaf:
  assumes eq: "read_tag strict (Suc d) t bs = Inr (v, rest)"
    and ok: "counts_ok_tag strict (Suc d) t bs"
    and le: "d \<le> e"
    and t: "t \<noteq> 9" "t \<noteq> 10"
  shows "skip_tag (Suc e) t bs = Inr rest"
proof -
  have "t = 0 \<or> t = 1 \<or> t = 2 \<or> t = 3 \<or> t = 4 \<or> t = 5 \<or> t = 6 \<or> t = 7
    \<or> t = 8 \<or> t = 11 \<or> t = 12 \<or> 12 < t"
    using t by arith
  then consider "t = 0" | "t = 1" | "t = 2" | "t = 3" | "t = 4" | "t = 5" | "t = 6" | "t = 7"
    | "t = 8" | "t = 11" | "t = 12" | "12 < t"
    by blast
  then show ?thesis
  proof cases
    case 1
    with eq show ?thesis by simp
  next
    case 2
    with eq show ?thesis
      by (auto split: sum.splits prod.splits dest!: read_byte_rest simp: skip_fixed)
  next
    case 3
    with eq show ?thesis
      by (auto split: sum.splits prod.splits dest!: read_short_rest simp: skip_fixed)
  next
    case 4
    with eq show ?thesis
      by (auto split: sum.splits prod.splits dest!: read_int_rest simp: skip_fixed)
  next
    case 5
    with eq show ?thesis
      by (auto split: sum.splits prod.splits dest!: read_long_rest simp: skip_fixed)
  next
    case 6
    with eq show ?thesis
      by (auto dest!: read_float_rest simp: skip_fixed)
  next
    case 7
    with eq show ?thesis
      by (auto dest!: read_double_rest simp: skip_fixed)
  next
    case 8
    with eq obtain len b1 where a: "read_int d bs = Inr (len, b1)"
      and b: "int_array (read_byte d) len b1 = Inr (v, rest)"
      by (auto split: sum.splits prod.splits)
    from ok 8 a have len: "0 \<le> len" by simp
    from b have "rest = drop (nat len * 1) b1"
      by (rule int_array_rest[rotated]) (rule read_byte_rest)
    with read_int_mono[OF a le] len 8 show ?thesis by (simp add: skip_fixed)
  next
    case 9
    with eq obtain s where a: "read_string d bs = Inr (s, rest)"
      by (auto split: sum.splits prod.splits)
    from read_string_mono[OF a le] 9 show ?thesis by simp
  next
    case 10
    with eq obtain len b1 where a: "read_int d bs = Inr (len, b1)"
      and b: "int_array (read_int d) len b1 = Inr (v, rest)"
      by (auto split: sum.splits prod.splits)
    from ok 10 a have len: "0 \<le> len" by simp
    from b have "rest = drop (nat len * 4) b1"
      by (rule int_array_rest[rotated]) (rule read_int_rest)
    with read_int_mono[OF a le] len 10 show ?thesis
      by (simp add: skip_fixed nat_mult_distrib)
  next
    case 11
    with eq obtain len b1 where a: "read_int d bs = Inr (len, b1)"
      and b: "int_array (read_long d) len b1 = Inr (v, rest)"
      by (auto split: sum.splits prod.splits)
    from ok 11 a have len: "0 \<le> len" by simp
    from b have "rest = drop (nat len * 8) b1"
      by (rule int_array_rest[rotated]) (rule read_long_rest)
    with read_int_mono[OF a le] len 11 show ?thesis
      by (simp add: skip_fixed nat_mult_distrib)
  next
    case 12
    with eq show ?thesis by (auto split: if_splits)
  qed
qed


text \<open>
  The simulation, by induction over the calls of the reader. \<^verbatim>\<open>skip_tag\<close> nests fewer
  calls than \<^verbatim>\<open>read_tag\<close> (it has no \<^verbatim>\<open>read_list\<close> and calls \<^verbatim>\<open>read\<close> directly), so it
  succeeds with any budget \<open>e\<close> that is at least the budget \<open>d\<close> of the reader.
\<close>

lemma skip_follows_read:
  "read_tag strict d t bs = Inr (v, rest) \<Longrightarrow> counts_ok_tag strict d t bs \<Longrightarrow> d \<le> e
     \<Longrightarrow> skip_tag e t bs = Inr rest"
  "read_list strict1 d1 bs1 = Inr (v1, rest1) \<Longrightarrow> counts_ok_list strict1 d1 bs1 \<Longrightarrow> d1 \<le> e1
     \<Longrightarrow> skip_tag (Suc e1) 9 bs1 = Inr rest1"
  "read_elems strict2 d2 t2 n2 bs2 = Inr (v2, rest2) \<Longrightarrow> counts_ok_elems strict2 d2 t2 n2 bs2
     \<Longrightarrow> d2 \<le> e2 \<Longrightarrow> skip_elems e2 t2 n2 bs2 = Inr rest2"
  "read_compound strict3 d3 bs3 = Inr (v3, rest3) \<Longrightarrow> counts_ok_compound strict3 d3 bs3
     \<Longrightarrow> d3 \<le> e3 \<Longrightarrow> skip_compound e3 bs3 = Inr rest3"
  "compound_loop strict4 d4 acc4 bs4 = Inr (v4, rest4) \<Longrightarrow> counts_ok_loop strict4 d4 bs4
     \<Longrightarrow> d4 \<le> e4 \<Longrightarrow> skip_compound_loop e4 bs4 = Inr rest4"
proof (induct strict d t bs and strict1 d1 bs1 and strict2 d2 t2 n2 bs2 and strict3 d3 bs3
     and strict4 d4 acc4 bs4
     arbitrary: v rest e and v1 rest1 e1 and v2 rest2 e2 and v3 rest3 e3 and v4 rest4 e4
     rule: read_tag_read_list_read_elems_read_compound_compound_loop.induct)
  case (1 strict t bs)
  then show ?case by simp
next
  case (2 strict d t bs)
  note IHlist = 2(1) and IHcomp = 2(2) and eq = 2(3) and ok = 2(4)
  from 2(5) obtain e' where e: "e = Suc e'" and le: "d \<le> e'"
    by (cases e) simp_all
  consider "t = 9" | "t = 10" | "t \<noteq> 9" "t \<noteq> 10" by blast
  then show ?case
  proof cases
    case 1
    with eq ok have r: "read_list strict d bs = Inr (v, rest)" and c: "counts_ok_list strict d bs"
      by simp_all
    from 1 have tv: "t \<noteq> 0" "t \<noteq> 1" "t \<noteq> 2" "t \<noteq> 3" "t \<noteq> 4" "t \<noteq> 5" "t \<noteq> 6" "t \<noteq> 7"
      "t \<noteq> 8" "t = 9" by simp_all
    have "skip_tag (Suc e') 9 bs = Inr rest"
      using r c le by (rule IHlist[OF tv])
    then show ?thesis unfolding e 1 .
  next
    case 2
    with eq ok have r: "read_compound strict d bs = Inr (v, rest)"
      and c: "counts_ok_compound strict d bs"
      by simp_all
    from 2 have tv: "t \<noteq> 0" "t \<noteq> 1" "t \<noteq> 2" "t \<noteq> 3" "t \<noteq> 4" "t \<noteq> 5" "t \<noteq> 6" "t \<noteq> 7"
      "t \<noteq> 8" "t \<noteq> 9" "t = 10" by simp_all
    have "skip_compound e' bs = Inr rest"
      using r c le by (rule IHcomp[OF tv])
    with 2 show ?thesis unfolding e by simp
  next
    case 3
    with eq ok le show ?thesis unfolding e by (intro skip_leaf)
  qed
next
  case (3 strict bs)
  then show ?case by simp
next
  case (4 strict d bs)
  note eq = 4(2)[unfolded read_list.simps(2)] and ok = 4(3)
  from eq obtain tt b1 where a: "read_ubyte d bs = Inr (tt, b1)"
    by (auto split: sum.splits prod.splits)
  with eq obtain len b2 where b: "read_int d b1 = Inr (len, b2)"
    by (auto split: sum.splits prod.splits)
  with eq a obtain vs where c: "read_elems strict d tt (nat len) b2 = Inr (vs, rest1)"
    by (auto split: sum.splits prod.splits)
  from ok a b have okc: "counts_ok_elems strict d tt (nat len) b2" by simp
  from 4(4) have le: "d \<le> e1" by simp
  have "skip_elems e1 tt (nat len) b2 = Inr rest1"
    using c okc le by (rule 4(1)[OF a refl b refl])
  with read_ubyte_mono[OF a le] read_int_mono[OF b le] show ?case by simp
next
  case (5 strict d t bs)
  then show ?case by simp
next
  case (6 strict d t n bs)
  note eq = 6(3)[unfolded read_elems.simps(2)] and ok = 6(4) and le = 6(5)
  from eq obtain x b1 where a: "read_tag strict d t bs = Inr (x, b1)"
    by (auto split: sum.splits prod.splits)
  with eq obtain xs where b: "read_elems strict d t n b1 = Inr (xs, rest2)"
    by (auto split: sum.splits prod.splits)
  from ok a have ok1: "counts_ok_tag strict d t bs" and ok2: "counts_ok_elems strict d t n b1"
    by (simp_all split: if_splits)
  from 6(1)[OF a ok1 le] 6(2)[OF a refl b ok2 le] show ?case by simp
next
  case (7 strict bs)
  then show ?case by simp
next
  case (8 strict d bs)
  from 8(4) obtain e' where e: "e3 = Suc e'" and le: "d \<le> e'"
    by (cases e3) simp_all
  from 8(2,3) have "compound_loop strict d [] bs = Inr (v3, rest3)" "counts_ok_loop strict d bs"
    by simp_all
  then have "skip_compound_loop e' bs = Inr rest3" using le by (rule 8(1))
  then show ?case unfolding e by simp
next
  case (9 strict d result bs)
  note eq = 9(3)[unfolded compound_loop.simps[of strict d result bs]]
  note ok = 9(4)[unfolded counts_ok_loop.simps[of strict d bs]] and le = 9(5)
  from eq obtain tt b1 where a: "read_ubyte d bs = Inr (tt, b1)"
    by (auto split: sum.splits prod.splits)
  show ?case
  proof (cases "tt = 0")
    case True
    with eq a read_ubyte_mono[OF a le] show ?thesis
      by (subst skip_compound_loop.simps) simp
  next
    case False
    with eq a obtain name b2 where b: "read_string d b1 = Inr (name, b2)"
      by (auto split: sum.splits prod.splits)
    with eq a False obtain x b3 where c: "read_tag strict d tt b2 = Inr (x, b3)"
      by (auto split: sum.splits prod.splits)
    with eq a b False
    have l: "compound_loop strict d (dict_set result name x) b3 = Inr (v4, rest4)"
      by simp
    from ok a b c False have ok1: "counts_ok_tag strict d tt b2"
      and ok2: "counts_ok_loop strict d b3"
      by (simp_all split: if_splits)
    have s1: "skip_tag e4 tt b2 = Inr b3"
      using c ok1 le by (rule 9(1)[OF a refl False b refl])
    have s2: "skip_compound_loop e4 b3 = Inr rest4"
      using l ok2 le by (rule 9(2)[OF a refl False b refl c refl])
    from read_ubyte_mono[OF a le] read_string_mono[OF b le] False s1 s2 show ?thesis
      by (subst skip_compound_loop.simps) simp
  qed
qed


lemma counts_numeral:
  "counts_ok_tag strict (numeral k) = counts_ok_tag strict (Suc (pred_numeral k))"
  "counts_ok_list strict (numeral k) = counts_ok_list strict (Suc (pred_numeral k))"
  "counts_ok_compound strict (numeral k) = counts_ok_compound strict (Suc (pred_numeral k))"
  "counts_ok_elems strict d t (numeral k) = counts_ok_elems strict d t (Suc (pred_numeral k))"
  by (simp_all only: numeral_eq_Suc)

text \<open>
  C10 as stated fails. On a ByteArray with count \<open>-1\<close> followed by one more byte,
  \<^verbatim>\<open>read_tag\<close> succeeds, takes the array as empty and leaves the last byte, while
  \<^verbatim>\<open>skip_tag\<close> calls \<^verbatim>\<open>read(-1)\<close>, which consumes the stream to its end.
\<close>

theorem C10_skip_read_counterexample:
  "read_tag False 2 7 [255, 255, 255, 255, 0] = Inr (PList [], [0])
   \<and> skip_tag 2 7 [255, 255, 255, 255, 0] = Inr []"
  by (simp add: ev del: Suc_numeral)

text \<open>
  C10, amended. For every tag type and every byte buffer on which \<^verbatim>\<open>read_tag\<close> succeeds
  without meeting a negative ByteArray, IntArray or LongArray count, \<^verbatim>\<open>skip_tag\<close> on the
  same type and bytes succeeds as well and leaves the same rest of the stream: it consumes
  exactly the bytes that \<^verbatim>\<open>read_tag\<close> consumes. This holds for both variants of \<^verbatim>\<open>read_tag\<close>.
\<close>

theorem C10_skip_consumes_what_read_consumes:
  assumes "read_tag strict d t bs = Inr (v, rest)"
    and "counts_ok_tag strict d t bs"
  shows "skip_tag d t bs = Inr rest"
  using assms by (rule skip_follows_read(1)) simp

text \<open>
  A Compound holding a List of two Ints and a ByteArray of two bytes, followed by one more
  byte: both readers stop in front of that byte.
\<close>

theorem C10_skip_read_witness:
  "read_tag False 6 10
     [9, 0, 1, 97, 3, 0, 0, 0, 2, 0, 0, 0, 1, 0, 0, 0, 2, 7, 0, 1, 98, 0, 0, 0, 2, 5, 6, 0, 42]
     = Inr (PDict [([97], PList [PInt 1, PInt 2]), ([98], PList [PInt 5, PInt 6])], [42])
   \<and> skip_tag 6 10
     [9, 0, 1, 97, 3, 0, 0, 0, 2, 0, 0, 0, 1, 0, 0, 0, 2, 7, 0, 1, 98, 0, 0, 0, 2, 5, 6, 0, 42]
     = Inr [42]"
proof -
  let ?bs = "[9, 0, 1, 97, 3, 0, 0, 0, 2, 0, 0, 0, 1, 0, 0, 0, 2, 7, 0, 1, 98, 0, 0, 0, 2, 5, 6,
    0, 42] :: bytes"
  have a: "read_tag False 6 10 ?bs
      = Inr (PDict [([97], PList [PInt 1, PInt 2]), ([98], PList [PInt 5, PInt 6])], [42])"
    by (simp add: ev del: Suc_numeral)
  have b: "counts_ok_tag False 6 10 ?bs"
    by (simp add: ev counts_numeral counts_ok_loop.simps del: Suc_numeral)
  from C10_skip_consumes_what_read_consumes[OF a b] a show ?thesis by simp
qed

end
